theory Spec2Isabelle
  imports Complex_Main "HOL-Library.Multiset" "HOL-Library.Char_ord" "HOL-Library.List_Lexorder"
begin

section \<open>Data model\<close>

text \<open>
  The simulator of \<^verbatim>\<open>src/main.cpp\<close>: order book entries, the wallet, the order book
  with its matching loop.

  Conventions of the embedding.
  \<^item> A C++ \<^verbatim>\<open>double\<close> is a \<^typ>\<open>real\<close>: comparisons and assignments are as in the
    source, and there is no NaN and no infinity. Arithmetic is exact, except where the
    rounding of the machine is written out (\<open>dsub\<close>, for the remaining amounts of the
    matching loop).
  \<^item> A \<^verbatim>\<open>std::string\<close> is a \<^typ>\<open>string\<close>; \<^verbatim>\<open>operator<\<close> on strings is the
    lexicographic order on lists of characters, characters compared by their code.
  \<^item> A call that throws returns \<open>Inl Thrown\<close>. An unchecked read past the end of a
    vector (\<^verbatim>\<open>v[i]\<close> with \<open>i \<ge> v.size()\<close>) is undefined behaviour in C++: the model
    returns \<open>Inl Undefined\<close> there, which stands for "the program has no defined
    result", not for an error the program reports.
\<close>

datatype OrderBookType = bid | ask | unknown | asksale | bidsale

record OrderBookEntry =
  price :: real
  amount :: real
  timestamp :: string
  product :: string
  orderType :: OrderBookType
  username :: string

text \<open>
  The constructor \<^verbatim>\<open>OrderBookEntry(price, amount, timestamp, product, orderType, username)\<close>;
  the source's default for the last argument is \<^verbatim>\<open>"dataset"\<close>.
\<close>

abbreviation entry ::
  "real \<Rightarrow> real \<Rightarrow> string \<Rightarrow> string \<Rightarrow> OrderBookType \<Rightarrow> string \<Rightarrow> OrderBookEntry" where
  "entry p a ts prd ty u \<equiv>
     \<lparr>price = p, amount = a, timestamp = ts, product = prd, orderType = ty, username = u\<rparr>"

datatype failure = Thrown | Undefined

section \<open>Comparators\<close>

definition compareByTimestamp :: "OrderBookEntry \<Rightarrow> OrderBookEntry \<Rightarrow> bool" where
  "compareByTimestamp e1 e2 = (timestamp e1 < timestamp e2)"

definition compareByPriceAsc :: "OrderBookEntry \<Rightarrow> OrderBookEntry \<Rightarrow> bool" where
  "compareByPriceAsc e1 e2 = (price e1 < price e2)"

definition compareByPriceDesc :: "OrderBookEntry \<Rightarrow> OrderBookEntry \<Rightarrow> bool" where
  "compareByPriceDesc e1 e2 = (price e1 > price e2)"

section \<open>CSVReader::tokenise\<close>

text \<open>
  The source keeps \<^verbatim>\<open>start\<close> and \<^verbatim>\<open>end\<close> in \<^verbatim>\<open>signed int\<close>, so that
  \<^verbatim>\<open>std::string::npos\<close> becomes \<open>-1\<close>; positions are integers here as well. The model
  is that of lines shorter than \<open>2^31\<close> characters, where every other position fits.
  A negative \<^verbatim>\<open>start\<close> passed back to \<^verbatim>\<open>find_first_of\<close> converts to a position past
  the end of the string, and the search finds nothing.
\<close>

fun find_from :: "(char \<Rightarrow> bool) \<Rightarrow> string \<Rightarrow> nat \<Rightarrow> int" where
  "find_from P [] i = - 1"
| "find_from P (c # cs) i = (if P c then int i else find_from P cs (Suc i))"

definition find_first_not_of :: "string \<Rightarrow> char \<Rightarrow> int" where
  "find_first_not_of s sep = find_from (\<lambda>c. c \<noteq> sep) s 0"

definition find_first_of :: "string \<Rightarrow> char \<Rightarrow> int \<Rightarrow> int" where
  "find_first_of s sep pos =
     (if pos < 0 \<or> int (length s) < pos then - 1
      else find_from (\<lambda>c. c = sep) (drop (nat pos) s) (nat pos))"

text \<open>
  \<^verbatim>\<open>substr(pos, n)\<close>; it throws only for \<open>pos > size\<close>, and the loop below calls it with
  \<open>0 \<le> pos < size\<close> only.
\<close>

definition substr :: "string \<Rightarrow> int \<Rightarrow> int \<Rightarrow> string" where
  "substr s pos n = take (nat n) (drop (nat pos) s)"

text \<open>The body of the \<^verbatim>\<open>do { ... } while (end > 0)\<close> loop, entered with \<^verbatim>\<open>start\<close>.\<close>

function tokenise_loop :: "string \<Rightarrow> char \<Rightarrow> int \<Rightarrow> string list \<Rightarrow> string list" where
  "tokenise_loop csvLine separator start tokens =
     (let end = find_first_of csvLine separator start in
      if start = int (length csvLine) \<or> start = end then tokens
      else
        let token = (if end \<ge> 0 then substr csvLine start (end - start)
                     else substr csvLine start (int (length csvLine) - start));
            tokens' = tokens @ [token]
        in if end > 0 then tokenise_loop csvLine separator (end + 1) tokens' else tokens')"
  by pat_completeness auto
termination
proof (relation "measure (\<lambda>(csvLine, separator, start, tokens). nat (int (length csvLine) - start))",
    goal_cases)
  case 1
  show ?case by simp
next
  case (2 csvLine separator start tokens e tok toks)
  have bound: "find_from P cs i \<noteq> - 1 \<Longrightarrow>
      int i \<le> find_from P cs i \<and> find_from P cs i < int i + int (length cs)" for P cs i
  proof (induction cs arbitrary: i)
    case Nil
    then show ?case by simp
  next
    case (Cons c cs)
    show ?case
    proof (cases "P c")
      case True
      then show ?thesis by simp
    next
      case False
      with Cons.prems have "find_from P cs (Suc i) \<noteq> - 1" by simp
      from Cons.IH [OF this] False show ?thesis by simp
    qed
  qed
  from 2 have pos: "0 \<le> start" "start \<le> int (length csvLine)"
    by (auto simp: find_first_of_def split: if_splits)
  with 2 bound [of "\<lambda>c. c = separator" "drop (nat start) csvLine" "nat start"]
  show ?case
    by (auto simp: find_first_of_def split: if_splits)
qed

declare tokenise_loop.simps [simp del]

definition tokenise :: "string \<Rightarrow> char \<Rightarrow> string list" where
  "tokenise csvLine separator =
     tokenise_loop csvLine separator (find_first_not_of csvLine separator) []"

section \<open>Wallet\<close>

text \<open>
  \<^verbatim>\<open>std::map<std::string, double> currencies\<close>. Reading \<^verbatim>\<open>currencies[k]\<close> for an
  absent key creates it with value 0, which is what \<open>at_default\<close> reads.
\<close>

type_synonym Wallet = "string \<rightharpoonup> real"

definition at_default :: "Wallet \<Rightarrow> string \<Rightarrow> real" where
  "at_default w k = (case w k of None \<Rightarrow> 0 | Some b \<Rightarrow> b)"

definition insertCurrency :: "Wallet \<Rightarrow> string \<Rightarrow> real \<Rightarrow> failure + Wallet" where
  "insertCurrency w type amt =
     (if amt < 0 then Inl Thrown
      else
        let balance = (if w type = None then 0 else at_default w type)
        in Inr (w(type \<mapsto> balance + amt)))"

definition containsCurrency :: "Wallet \<Rightarrow> string \<Rightarrow> real \<Rightarrow> bool" where
  "containsCurrency w type amt = (if w type = None then False else at_default w type \<ge> amt)"

definition removeCurrency :: "Wallet \<Rightarrow> string \<Rightarrow> real \<Rightarrow> bool \<times> Wallet" where
  "removeCurrency w type amt =
     (if amt < 0 then (False, w)
      else if w type = None then (False, w)
      else if containsCurrency w type amt then (True, w(type \<mapsto> at_default w type - amt))
      else (False, w))"

subsection \<open>ExtendedWallet\<close>

text \<open>
  \<^verbatim>\<open>currs[0]\<close> and \<^verbatim>\<open>currs[1]\<close> are unchecked reads of the vector that tokenise
  returned.
\<close>

definition canFulfillOrder :: "Wallet \<Rightarrow> OrderBookEntry \<Rightarrow> failure + bool" where
  "canFulfillOrder w order =
     (let currs = tokenise (product order) CHR ''/'' in
      if orderType order = ask then
        (if 0 < length currs then Inr (containsCurrency w (currs ! 0) (amount order))
         else Inl Undefined)
      else if orderType order = bid then
        (if 1 < length currs
         then Inr (containsCurrency w (currs ! 1) (amount order * price order))
         else Inl Undefined)
      else Inr False)"

definition processSale :: "Wallet \<Rightarrow> OrderBookEntry \<Rightarrow> failure + Wallet" where
  "processSale w sale =
     (let currs = tokenise (product sale) CHR ''/'' in
      case
        (if orderType sale = asksale then
           (let outgoing = amount sale; incoming = amount sale * price sale in
            if 1 < length currs then
              (let w1 = w(currs ! 0 \<mapsto> at_default w (currs ! 0) - outgoing)
               in Inr (w1(currs ! 1 \<mapsto> at_default w1 (currs ! 1) + incoming)))
            else Inl Undefined)
         else Inr w)
      of
        Inl f \<Rightarrow> Inl f
      | Inr w' \<Rightarrow>
          (if orderType sale = bidsale then
             (let incoming = amount sale; outgoing = amount sale * price sale in
              if 1 < length currs then
                (let w1 = w'(currs ! 0 \<mapsto> at_default w' (currs ! 0) + incoming)
                 in Inr (w1(currs ! 1 \<mapsto> at_default w1 (currs ! 1) - outgoing)))
              else Inl Undefined)
           else Inr w'))"

subsection \<open>Sequences of wallet operations\<close>

datatype wallet_op =
  Deposit string real
| Withdraw string real
| Settle OrderBookEntry

text \<open>
  The wallet after one call: a deposit that throws and a withdrawal that returns false
  leave it as it was; a settlement that reads past the token vector leaves no defined
  wallet (\<open>None\<close>).
\<close>

fun apply_op :: "Wallet \<Rightarrow> wallet_op \<Rightarrow> Wallet option" where
  "apply_op w (Deposit c a) = (case insertCurrency w c a of Inl _ \<Rightarrow> Some w | Inr w' \<Rightarrow> Some w')"
| "apply_op w (Withdraw c a) = Some (snd (removeCurrency w c a))"
| "apply_op w (Settle s) = (case processSale w s of Inl _ \<Rightarrow> None | Inr w' \<Rightarrow> Some w')"

fun run_ops :: "Wallet \<Rightarrow> wallet_op list \<Rightarrow> Wallet option" where
  "run_ops w [] = Some w"
| "run_ops w (x # xs) = (case apply_op w x of None \<Rightarrow> None | Some w' \<Rightarrow> run_ops w' xs)"

definition balance_after :: "Wallet \<Rightarrow> wallet_op list \<Rightarrow> string \<Rightarrow> real option" where
  "balance_after w xs c = (case run_ops w xs of None \<Rightarrow> None | Some w' \<Rightarrow> w' c)"

definition nonneg :: "Wallet \<Rightarrow> bool" where
  "nonneg w = (\<forall>c b. w c = Some b \<longrightarrow> 0 \<le> b)"

text \<open>
  A settlement is funded in a wallet when the product splits into two currencies, the
  debited currency holds the debited quantity and the credited quantity is not negative.
\<close>

definition funded :: "Wallet \<Rightarrow> OrderBookEntry \<Rightarrow> bool" where
  "funded w s =
     (let currs = tokenise (product s) CHR ''/'' in
      if orderType s = asksale then
        1 < length currs \<and> amount s \<le> at_default w (currs ! 0) \<and> 0 \<le> amount s * price s
      else if orderType s = bidsale then
        1 < length currs \<and> 0 \<le> amount s \<and> amount s * price s \<le> at_default w (currs ! 1)
      else True)"

fun all_funded :: "Wallet \<Rightarrow> wallet_op list \<Rightarrow> bool" where
  "all_funded w [] = True"
| "all_funded w (Settle s # xs) =
     (funded w s \<and> (case apply_op w (Settle s) of None \<Rightarrow> False | Some w' \<Rightarrow> all_funded w' xs))"
| "all_funded w (x # xs) =
     (case apply_op w x of None \<Rightarrow> False | Some w' \<Rightarrow> all_funded w' xs)"

section \<open>Order book\<close>

text \<open>The five records the constructor loads; the owner defaults to \<^verbatim>\<open>"dataset"\<close>.\<close>

definition initial_orders :: "OrderBookEntry list" where
  "initial_orders =
     [\<lparr>price = 10000, amount = 0.5, timestamp = ''2020/03/17 17:01:24'', product = ''BTC/USDT'',
       orderType = bid, username = ''dataset''\<rparr>,
      \<lparr>price = 10500, amount = 0.2, timestamp = ''2020/03/17 17:01:24'', product = ''BTC/USDT'',
       orderType = ask, username = ''dataset''\<rparr>,
      \<lparr>price = 10100, amount = 1.0, timestamp = ''2020/03/17 17:01:24'', product = ''BTC/USDT'',
       orderType = bid, username = ''dataset''\<rparr>,
      \<lparr>price = 200, amount = 50, timestamp = ''2020/03/17 17:01:30'', product = ''ETH/USDT'',
       orderType = ask, username = ''dataset''\<rparr>,
      \<lparr>price = 190, amount = 10, timestamp = ''2020/03/17 17:01:30'', product = ''ETH/USDT'',
       orderType = bid, username = ''dataset''\<rparr>]"

definition getOrders ::
  "OrderBookEntry list \<Rightarrow> OrderBookType \<Rightarrow> string \<Rightarrow> string \<Rightarrow> OrderBookEntry list" where
  "getOrders orders type prd ts =
     filter (\<lambda>e. orderType e = type \<and> product e = prd \<and> timestamp e = ts) orders"

text \<open>
  \<^verbatim>\<open>double max = orders[0].price; for (e : orders) if (e.price > max) max = e.price;\<close>
\<close>

definition getHighPrice :: "OrderBookEntry list \<Rightarrow> failure + real" where
  "getHighPrice orders =
     (case orders of
        [] \<Rightarrow> Inl Undefined
      | e0 # _ \<Rightarrow> Inr (fold (\<lambda>e m. if price e > m then price e else m) orders (price e0)))"

definition getLowPrice :: "OrderBookEntry list \<Rightarrow> failure + real" where
  "getLowPrice orders =
     (case orders of
        [] \<Rightarrow> Inl Undefined
      | e0 # _ \<Rightarrow> Inr (fold (\<lambda>e m. if price e < m then price e else m) orders (price e0)))"

definition getEarliestTime :: "OrderBookEntry list \<Rightarrow> failure + string" where
  "getEarliestTime orders = (case orders of [] \<Rightarrow> Inl Undefined | e0 # _ \<Rightarrow> Inr (timestamp e0))"

text \<open>
  The scan of getNextTime: \<^verbatim>\<open>next_timestamp\<close> after the \<^verbatim>\<open>for\<close> loop, which stops
  at the first entry later than the given time and leaves the empty string otherwise.
\<close>

fun first_later :: "string \<Rightarrow> OrderBookEntry list \<Rightarrow> string" where
  "first_later t [] = []"
| "first_later t (e # es) = (if timestamp e > t then timestamp e else first_later t es)"

definition getNextTime :: "OrderBookEntry list \<Rightarrow> string \<Rightarrow> failure + string" where
  "getNextTime orders t =
     (let next_timestamp = first_later t orders in
      if next_timestamp = [] then
        (case orders of [] \<Rightarrow> Inl Undefined | e0 # _ \<Rightarrow> Inr (timestamp e0))
      else Inr next_timestamp)"

subsection \<open>std::sort\<close>

text \<open>
  \<^verbatim>\<open>std::sort\<close> belongs to the C++ library, not to this program. What the language
  promises of \<^verbatim>\<open>std::sort(first, last, cmp)\<close> is that the range ends up a permutation
  of itself in which no element is \<^verbatim>\<open>cmp\<close>-smaller than one before it; the order of
  equivalent elements is not promised (that is \<^verbatim>\<open>std::stable_sort\<close>). The functions
  that sort take the sorting function as a parameter \<open>srt\<close>, and \<open>sort_spec cmp srt\<close>
  is that promise.
\<close>

definition sort_spec ::
  "(OrderBookEntry \<Rightarrow> OrderBookEntry \<Rightarrow> bool) \<Rightarrow> (OrderBookEntry list \<Rightarrow> OrderBookEntry list) \<Rightarrow> bool"
  where
  "sort_spec cmp srt =
     (\<forall>xs. mset (srt xs) = mset xs \<and> sorted_wrt (\<lambda>a b. \<not> cmp b a) (srt xs))"

text \<open>A sorting function that keeps the promise: insertion sort.\<close>

fun insert_sorted :: "('a \<Rightarrow> 'a \<Rightarrow> bool) \<Rightarrow> 'a \<Rightarrow> 'a list \<Rightarrow> 'a list" where
  "insert_sorted cmp x [] = [x]"
| "insert_sorted cmp x (y # ys) =
     (if cmp y x then y # insert_sorted cmp x ys else x # y # ys)"

definition insertion_sort :: "('a \<Rightarrow> 'a \<Rightarrow> bool) \<Rightarrow> 'a list \<Rightarrow> 'a list" where
  "insertion_sort cmp xs = foldr (insert_sorted cmp) xs []"

subsection \<open>insertOrder and the reachable books\<close>

definition insertOrder ::
  "(OrderBookEntry list \<Rightarrow> OrderBookEntry list) \<Rightarrow> OrderBookEntry list \<Rightarrow> OrderBookEntry \<Rightarrow>
   OrderBookEntry list" where
  "insertOrder srt orders order = srt (orders @ [order])"

text \<open>The stored collection after the constructor and the given insertions, in order.\<close>

definition book_after ::
  "(OrderBookEntry list \<Rightarrow> OrderBookEntry list) \<Rightarrow> OrderBookEntry list \<Rightarrow> OrderBookEntry list"
  where
  "book_after srt inserted = foldl (insertOrder srt) initial_orders inserted"

subsection \<open>std::sort in the GNU C++ library\<close>

text \<open>
  What std::sort does with entries of equal timestamp is not fixed by the language; it is
  fixed by the library the program is built with. This is std::sort of the GNU C++ library
  (libstdc++, \<^verbatim>\<open>bits/stl_algo.h\<close>), the library of g++: \<^verbatim>\<open>std::__sort\<close> and the
  functions it calls, run on the whole vector. The library is not part of the repository.

  The range is a list and the iterators are indices into it. The loops that the library
  calls unguarded have no test for the end of the range; a sentinel stops them. Where one
  of them would leave the vector the behaviour is undefined and the model returns
  \<open>None\<close>. The heap sort that \<^verbatim>\<open>__introsort_loop\<close> falls back on when its depth
  limit is used up (\<^verbatim>\<open>std::__partial_sort\<close>) is not modelled: \<open>None\<close> as well.
\<close>

























subsection \<open>Matching\<close>

text \<open>
  The trade record that the loop body builds for a pair before it looks at the amounts.
\<close>

definition new_sale :: "string \<Rightarrow> string \<Rightarrow> OrderBookEntry \<Rightarrow> OrderBookEntry \<Rightarrow> OrderBookEntry" where
  "new_sale ts prd a b =
     (let sale = \<lparr>price = price a, amount = 0, timestamp = ts, product = prd,
                  orderType = asksale, username = ''dataset''\<rparr>;
          sale = (if username b = ''simuser''
                  then sale\<lparr>username := ''simuser'', orderType := bidsale\<rparr> else sale);
          sale = (if username a = ''simuser''
                  then sale\<lparr>username := ''simuser'', orderType := asksale\<rparr> else sale)
      in sale)"

text \<open>
  The inner loop, for one ask over the bids still to be scanned. It returns the trades,
  the ask and the bids as the loop leaves them. \<^verbatim>\<open>break\<close> returns with the rest of the
  bids untouched; \<^verbatim>\<open>continue\<close> and the end of the body go on with the next bid.
\<close>

fun match_bids ::
  "string \<Rightarrow> string \<Rightarrow> OrderBookEntry \<Rightarrow> OrderBookEntry list \<Rightarrow>
   OrderBookEntry list \<times> OrderBookEntry \<times> OrderBookEntry list" where
  "match_bids ts prd a [] = ([], a, [])"
| "match_bids ts prd a (b # bs) =
     (if price b \<ge> price a then
        (let sale = new_sale ts prd a b in
         if amount b = amount a then
           ([sale\<lparr>amount := amount a\<rparr>], a, b\<lparr>amount := 0\<rparr> # bs)
         else if amount b > amount a then
           ([sale\<lparr>amount := amount a\<rparr>], a, b\<lparr>amount := amount b - amount a\<rparr> # bs)
         else if amount b < amount a \<and> amount b > 0 then
           (case match_bids ts prd (a\<lparr>amount := amount a - amount b\<rparr>) bs of
              (sales, a', bs') \<Rightarrow> (sale\<lparr>amount := amount b\<rparr> # sales, a', b\<lparr>amount := 0\<rparr> # bs'))
         else
           (case match_bids ts prd a bs of (sales, a', bs') \<Rightarrow> (sales, a', b # bs')))
      else
        (case match_bids ts prd a bs of (sales, a', bs') \<Rightarrow> (sales, a', b # bs')))"

text \<open>The outer loop over the asks; the bids carry their amounts from one ask to the next.\<close>

fun match_asks ::
  "string \<Rightarrow> string \<Rightarrow> OrderBookEntry list \<Rightarrow> OrderBookEntry list \<Rightarrow>
   OrderBookEntry list \<times> OrderBookEntry list \<times> OrderBookEntry list" where
  "match_asks ts prd [] bs = ([], [], bs)"
| "match_asks ts prd (a # as) bs =
     (case match_bids ts prd a bs of
        (sales, a', bs') \<Rightarrow>
          (case match_asks ts prd as bs' of
             (sales', as', bs'') \<Rightarrow> (sales @ sales', a' # as', bs'')))"

text \<open>
  matchAsksToBids, given what the two calls of \<^verbatim>\<open>std::sort\<close> compute
  (\<open>srt_asc\<close> with compareByPriceAsc, \<open>srt_desc\<close> with compareByPriceDesc).
\<close>

definition matchAsksToBids ::
  "(OrderBookEntry list \<Rightarrow> OrderBookEntry list) \<Rightarrow> (OrderBookEntry list \<Rightarrow> OrderBookEntry list) \<Rightarrow>
   OrderBookEntry list \<Rightarrow> string \<Rightarrow> string \<Rightarrow> OrderBookEntry list" where
  "matchAsksToBids srt_asc srt_desc orders prd ts =
     (let asks = srt_asc (getOrders orders ask prd ts);
          bids = srt_desc (getOrders orders bid prd ts)
      in fst (match_asks ts prd asks bids))"

definition sum_amounts :: "OrderBookEntry list \<Rightarrow> real" where
  "sum_amounts es = sum_list (map amount es)"

subsection \<open>The subtraction of doubles\<close>

text \<open>
  The remaining amounts that the matching loop writes are differences of two doubles, and
  the machine rounds them: \<^verbatim>\<open>1.0 - 0x1p-55\<close> is \<^verbatim>\<open>1.0\<close>. \<open>round_double\<close> is
  the rounding of IEEE 754 binary64 to the nearest double, ties to the even significand:
  the significand has 53 bits, the least exponent of the last bit is -1074 (subnormal
  numbers included). \<open>is_double\<close> holds of the finite doubles. Results beyond the
  largest double are not modelled; on amounts that are not negative the loop subtracts an
  amount from a larger one only, so it never leaves the range of its operands. \<open>pow2 k\<close> is \<open>2^k\<close> for an
  integer \<open>k\<close>.
\<close>

definition pow2 :: "int \<Rightarrow> real" where
  "pow2 k = (if 0 \<le> k then 2 ^ nat k else 1 / 2 ^ nat (- k))"

text \<open>
  The exponent of the last bit of the doubles of the magnitude of \<open>x\<close>:
  \<open>\<lfloor>log\<^sub>2 \<bar>x\<bar>\<rfloor> - 52\<close>, and -1074 for the subnormal ones.
\<close>

definition ulp_exp :: "real \<Rightarrow> int" where
  "ulp_exp x = max (\<lfloor>log 2 \<bar>x\<bar>\<rfloor> - 52) (- 1074)"

definition round_even :: "real \<Rightarrow> int" where
  "round_even r =
     (let f = \<lfloor>r\<rfloor>; d = r - of_int f in
      if d < 1 / 2 then f else if 1 / 2 < d then f + 1 else if even f then f else f + 1)"

definition round_double :: "real \<Rightarrow> real" where
  "round_double x =
     (if x = 0 then 0
      else pow2 (ulp_exp x) * of_int (round_even (x / pow2 (ulp_exp x))))"

definition is_double :: "real \<Rightarrow> bool" where
  "is_double x =
     (\<exists>m e::int. \<bar>m\<bar> < 2 ^ 53 \<and> - 1074 \<le> e \<and> e \<le> 971 \<and> x = of_int m * pow2 e)"

definition dsub :: "real \<Rightarrow> real \<Rightarrow> real" where
  "dsub x y = round_double (x - y)"

text \<open>
  The two loops of matchAsksToBids with the subtraction as a parameter: \<open>dsub\<close> for the
  program as it runs, \<open>(-)\<close> for \<open>match_bids\<close> and \<open>match_asks\<close> above.
\<close>

fun match_bids_with ::
  "(real \<Rightarrow> real \<Rightarrow> real) \<Rightarrow> string \<Rightarrow> string \<Rightarrow> OrderBookEntry \<Rightarrow> OrderBookEntry list \<Rightarrow>
   OrderBookEntry list \<times> OrderBookEntry \<times> OrderBookEntry list" where
  "match_bids_with sub ts prd a [] = ([], a, [])"
| "match_bids_with sub ts prd a (b # bs) =
     (if price b \<ge> price a then
        (let sale = new_sale ts prd a b in
         if amount b = amount a then
           ([sale\<lparr>amount := amount a\<rparr>], a, b\<lparr>amount := 0\<rparr> # bs)
         else if amount b > amount a then
           ([sale\<lparr>amount := amount a\<rparr>], a, b\<lparr>amount := sub (amount b) (amount a)\<rparr> # bs)
         else if amount b < amount a \<and> amount b > 0 then
           (case match_bids_with sub ts prd (a\<lparr>amount := sub (amount a) (amount b)\<rparr>) bs of
              (sales, a', bs') \<Rightarrow> (sale\<lparr>amount := amount b\<rparr> # sales, a', b\<lparr>amount := 0\<rparr> # bs'))
         else
           (case match_bids_with sub ts prd a bs of (sales, a', bs') \<Rightarrow> (sales, a', b # bs')))
      else
        (case match_bids_with sub ts prd a bs of (sales, a', bs') \<Rightarrow> (sales, a', b # bs')))"

fun match_asks_with ::
  "(real \<Rightarrow> real \<Rightarrow> real) \<Rightarrow> string \<Rightarrow> string \<Rightarrow> OrderBookEntry list \<Rightarrow> OrderBookEntry list \<Rightarrow>
   OrderBookEntry list \<times> OrderBookEntry list \<times> OrderBookEntry list" where
  "match_asks_with sub ts prd [] bs = ([], [], bs)"
| "match_asks_with sub ts prd (a # as) bs =
     (case match_bids_with sub ts prd a bs of
        (sales, a', bs') \<Rightarrow>
          (case match_asks_with sub ts prd as bs' of
             (sales', as', bs'') \<Rightarrow> (sales @ sales', a' # as', bs'')))"

text \<open>An entry whose amount is a double and not negative.\<close>

definition double_amount :: "OrderBookEntry \<Rightarrow> bool" where
  "double_amount e = (is_double (amount e) \<and> 0 \<le> amount e)"

section \<open>Properties of the price scans\<close>

lemma Max_insert_max:
  "finite S \<Longrightarrow> Max (insert (max a b) S) = Max (insert (a::real) (insert b S))"
  by (cases "S = {}") (simp_all add: max.assoc)

lemma Min_insert_min:
  "finite S \<Longrightarrow> Min (insert (min a b) S) = Min (insert (a::real) (insert b S))"
  by (cases "S = {}") (simp_all add: min.assoc)

lemma fold_high_max:
  "fold (\<lambda>e m. if price e > m then price e else m) es m0 = Max (insert m0 (price ` set es))"
proof (induction es arbitrary: m0)
  case Nil
  show ?case by simp
next
  case (Cons e es)
  have step: "(if price e > m0 then price e else m0) = max m0 (price e)"
    by (simp add: max_def)
  have "fold (\<lambda>e m. if price e > m then price e else m) (e # es) m0 =
        fold (\<lambda>e m. if price e > m then price e else m) es (max m0 (price e))"
    by (simp only: fold_simps step)
  also have "\<dots> = Max (insert (max m0 (price e)) (price ` set es))"
    by (rule Cons.IH)
  also have "\<dots> = Max (insert m0 (insert (price e) (price ` set es)))"
    by (rule Max_insert_max) simp
  finally show ?case by simp
qed

lemma fold_low_min:
  "fold (\<lambda>e m. if price e < m then price e else m) es m0 = Min (insert m0 (price ` set es))"
proof (induction es arbitrary: m0)
  case Nil
  show ?case by simp
next
  case (Cons e es)
  have step: "(if price e < m0 then price e else m0) = min m0 (price e)"
    by (simp add: min_def)
  have "fold (\<lambda>e m. if price e < m then price e else m) (e # es) m0 =
        fold (\<lambda>e m. if price e < m then price e else m) es (min m0 (price e))"
    by (simp only: fold_simps step)
  also have "\<dots> = Min (insert (min m0 (price e)) (price ` set es))"
    by (rule Cons.IH)
  also have "\<dots> = Min (insert m0 (insert (price e) (price ` set es)))"
    by (rule Min_insert_min) simp
  finally show ?case by simp
qed

text \<open>
  Claim C6 as written fails: on an empty sequence neither function reports an error; each
  reads element 0 of an empty vector, which has no defined result.
\<close>

theorem C6_empty_counterexample:
  "getHighPrice [] = Inl Undefined \<and> getHighPrice [] \<noteq> Inl Thrown \<and>
   getLowPrice [] = Inl Undefined \<and> getLowPrice [] \<noteq> Inl Thrown"
  by (simp add: getHighPrice_def getLowPrice_def)

text \<open>
  Claim C6, amended: on a non-empty sequence getHighPrice returns the maximum and
  getLowPrice the minimum of the entries' prices; on an empty sequence both have no
  defined result (the read of element 0 is unchecked, no error is raised).
\<close>

theorem C6_high_low_price:
  "(orders \<noteq> [] \<longrightarrow>
      getHighPrice orders = Inr (Max (price ` set orders)) \<and>
      getLowPrice orders = Inr (Min (price ` set orders))) \<and>
   (orders = [] \<longrightarrow> getHighPrice orders = Inl Undefined \<and> getLowPrice orders = Inl Undefined)"
proof (cases orders)
  case Nil
  then show ?thesis by (simp add: getHighPrice_def getLowPrice_def)
next
  case (Cons e es)
  have "insert (price e) (price ` set (e # es)) = price ` set (e # es)" by auto
  then show ?thesis
    using Cons by (simp add: getHighPrice_def getLowPrice_def fold_high_max fold_low_min)
qed

theorem C6_high_low_price_witness:
  "getHighPrice
     [\<lparr>price = 200, amount = 50, timestamp = ''t'', product = ''ETH/USDT'', orderType = ask,
       username = ''dataset''\<rparr>,
      \<lparr>price = 210, amount = 1, timestamp = ''t'', product = ''ETH/USDT'', orderType = ask,
       username = ''dataset''\<rparr>] = Inr 210 \<and>
   getLowPrice
     [\<lparr>price = 200, amount = 50, timestamp = ''t'', product = ''ETH/USDT'', orderType = ask,
       username = ''dataset''\<rparr>,
      \<lparr>price = 210, amount = 1, timestamp = ''t'', product = ''ETH/USDT'', orderType = ask,
       username = ''dataset''\<rparr>] = Inr 200"
  using C6_high_low_price [of
      "[\<lparr>price = 200, amount = 50, timestamp = ''t'', product = ''ETH/USDT'', orderType = ask,
         username = ''dataset''\<rparr>,
        \<lparr>price = 210, amount = 1, timestamp = ''t'', product = ''ETH/USDT'', orderType = ask,
         username = ''dataset''\<rparr>]"]
  by simp


section \<open>Sorting functions that meet the promise of std::sort\<close>

lemma insert_sorted_mset: "mset (insert_sorted cmp x ys) = add_mset x (mset ys)"
  by (induction ys) simp_all

lemma insertion_sort_mset: "mset (insertion_sort cmp xs) = mset xs"
  by (induction xs) (simp_all add: insertion_sort_def insert_sorted_mset)

lemma insert_sorted_sorted:
  assumes asym: "\<And>x y. cmp x y \<Longrightarrow> \<not> cmp y x"
    and trans: "\<And>x y z. \<not> cmp y x \<Longrightarrow> \<not> cmp z y \<Longrightarrow> \<not> cmp z x"
  shows "sorted_wrt (\<lambda>a b. \<not> cmp b a) ys \<Longrightarrow> sorted_wrt (\<lambda>a b. \<not> cmp b a) (insert_sorted cmp x ys)"
proof (induction ys)
  case Nil
  show ?case by simp
next
  case (Cons y ys)
  show ?case
  proof (cases "cmp y x")
    case True
    have "set (insert_sorted cmp x ys) = insert x (set ys)"
      by (metis insert_sorted_mset set_mset_add_mset_insert set_mset_mset)
    with True Cons asym show ?thesis by auto
  next
    case False
    with Cons.prems trans show ?thesis by auto
  qed
qed

lemma insertion_sort_sorted:
  assumes asym: "\<And>x y. cmp x y \<Longrightarrow> \<not> cmp y x"
    and trans: "\<And>x y z. \<not> cmp y x \<Longrightarrow> \<not> cmp z y \<Longrightarrow> \<not> cmp z x"
  shows "sorted_wrt (\<lambda>a b. \<not> cmp b a) (insertion_sort cmp xs)"
proof (induction xs)
  case Nil
  show ?case by (simp add: insertion_sort_def)
next
  case (Cons x xs)
  from insert_sorted_sorted [of cmp, OF asym trans Cons.IH]
  show ?case by (simp add: insertion_sort_def)
qed

lemma insertion_sort_timestamp: "sort_spec compareByTimestamp (insertion_sort compareByTimestamp)"
  unfolding sort_spec_def
  by (intro allI conjI insertion_sort_mset insertion_sort_sorted)
     (auto simp: compareByTimestamp_def)

lemma insertion_sort_price_asc: "sort_spec compareByPriceAsc (insertion_sort compareByPriceAsc)"
  unfolding sort_spec_def
  by (intro allI conjI insertion_sort_mset insertion_sort_sorted)
     (auto simp: compareByPriceAsc_def)

lemma insertion_sort_price_desc: "sort_spec compareByPriceDesc (insertion_sort compareByPriceDesc)"
  unfolding sort_spec_def
  by (intro allI conjI insertion_sort_mset insertion_sort_sorted)
     (auto simp: compareByPriceDesc_def)

lemma sort_spec_single: "sort_spec cmp srt \<Longrightarrow> srt [x] = [x]"
  by (simp add: sort_spec_def) (metis mset.simps(1) mset.simps(2) mset_single_iff)


section \<open>Properties of the matching loop\<close>

lemma match_bids_sum_bids:
  "match_bids ts prd a bs = (sales, a', bs') \<Longrightarrow>
   sum_amounts sales + sum_amounts bs' = sum_amounts bs"
proof (induction bs arbitrary: a sales a' bs')
  case Nil
  then show ?case by (simp add: sum_amounts_def)
next
  case (Cons b bs)
  then show ?case
    by (auto simp: sum_amounts_def Let_def split: if_splits prod.splits)
qed

lemma match_bids_nonneg_bids:
  "match_bids ts prd a bs = (sales, a', bs') \<Longrightarrow> \<forall>b\<in>set bs. 0 \<le> amount b \<Longrightarrow>
   \<forall>b\<in>set bs'. 0 \<le> amount b"
proof (induction bs arbitrary: a sales a' bs')
  case Nil
  then show ?case by simp
next
  case (Cons b bs)
  then show ?case
    by (fastforce simp: Let_def split: if_splits prod.splits)
qed

lemma match_bids_sum_ask:
  "match_bids ts prd a bs = (sales, a', bs') \<Longrightarrow> 0 \<le> amount a \<Longrightarrow>
   sum_amounts sales \<le> amount a"
proof (induction bs arbitrary: a sales a' bs')
  case Nil
  then show ?case by (simp add: sum_amounts_def)
next
  case (Cons b bs)
  then show ?case
    by (fastforce simp: sum_amounts_def Let_def split: if_splits prod.splits)
qed

lemma match_bids_shape:
  "match_bids ts prd a bs = (sales, a', bs') \<Longrightarrow>
   map price bs' = map price bs \<and> price a' = price a \<and> length bs' = length bs"
proof (induction bs arbitrary: a sales a' bs')
  case Nil
  then show ?case by simp
next
  case (Cons b bs)
  then show ?case
    by (fastforce simp: Let_def split: if_splits prod.splits)
qed

lemma match_bids_price:
  "match_bids ts prd a bs = (sales, a', bs') \<Longrightarrow> s \<in> set sales \<Longrightarrow>
   price s = price a \<and> (\<exists>b\<in>set bs. price a \<le> price b)"
proof (induction bs arbitrary: a sales a' bs')
  case Nil
  then show ?case by simp
next
  case (Cons b bs)
  then show ?case
    by (fastforce simp: Let_def new_sale_def split: if_splits prod.splits)
qed

lemma match_asks_sum_bids:
  "match_asks ts prd as bs = (sales, as', bs') \<Longrightarrow>
   sum_amounts sales + sum_amounts bs' = sum_amounts bs"
proof (induction as arbitrary: bs sales as' bs')
  case Nil
  then show ?case by (simp add: sum_amounts_def)
next
  case (Cons a as)
  obtain s1 a1 b1 where m1: "match_bids ts prd a bs = (s1, a1, b1)"
    by (cases "match_bids ts prd a bs") auto
  obtain s2 a2 b2 where m2: "match_asks ts prd as b1 = (s2, a2, b2)"
    by (cases "match_asks ts prd as b1") auto
  from Cons.prems m1 m2 have eq: "sales = s1 @ s2" "bs' = b2" by simp_all
  from match_bids_sum_bids [OF m1] Cons.IH [OF m2] eq show ?case
    by (simp add: sum_amounts_def)
qed

lemma match_asks_nonneg_bids:
  "match_asks ts prd as bs = (sales, as', bs') \<Longrightarrow> \<forall>b\<in>set bs. 0 \<le> amount b \<Longrightarrow>
   \<forall>b\<in>set bs'. 0 \<le> amount b"
proof (induction as arbitrary: bs sales as' bs')
  case Nil
  then show ?case by simp
next
  case (Cons a as)
  obtain s1 a1 b1 where m1: "match_bids ts prd a bs = (s1, a1, b1)"
    by (cases "match_bids ts prd a bs") auto
  obtain s2 a2 b2 where m2: "match_asks ts prd as b1 = (s2, a2, b2)"
    by (cases "match_asks ts prd as b1") auto
  from Cons.prems m1 m2 have eq: "bs' = b2" by simp
  from match_bids_nonneg_bids [OF m1 Cons.prems(2)] Cons.IH [OF m2] eq show ?case
    by simp
qed

lemma match_asks_sum_asks:
  "match_asks ts prd as bs = (sales, as', bs') \<Longrightarrow> \<forall>a\<in>set as. 0 \<le> amount a \<Longrightarrow>
   sum_amounts sales \<le> sum_amounts as"
proof (induction as arbitrary: bs sales as' bs')
  case Nil
  then show ?case by (simp add: sum_amounts_def)
next
  case (Cons a as)
  obtain s1 a1 b1 where m1: "match_bids ts prd a bs = (s1, a1, b1)"
    by (cases "match_bids ts prd a bs") auto
  obtain s2 a2 b2 where m2: "match_asks ts prd as b1 = (s2, a2, b2)"
    by (cases "match_asks ts prd as b1") auto
  from Cons.prems m1 m2 have eq: "sales = s1 @ s2" by simp
  from Cons.prems(2) have "0 \<le> amount a" "\<forall>x\<in>set as. 0 \<le> amount x" by simp_all
  with match_bids_sum_ask [OF m1] Cons.IH [OF m2] eq show ?case
    by (simp add: sum_amounts_def)
qed

lemma match_asks_price:
  "match_asks ts prd as bs = (sales, as', bs') \<Longrightarrow> s \<in> set sales \<Longrightarrow>
   \<exists>a\<in>set as. price s = price a \<and> (\<exists>b\<in>set bs. price a \<le> price b)"
proof (induction as arbitrary: bs sales as' bs')
  case Nil
  then show ?case by simp
next
  case (Cons a as)
  obtain s1 a1 b1 where m1: "match_bids ts prd a bs = (s1, a1, b1)"
    by (cases "match_bids ts prd a bs") auto
  obtain s2 a2 b2 where m2: "match_asks ts prd as b1 = (s2, a2, b2)"
    by (cases "match_asks ts prd as b1") auto
  from Cons.prems m1 m2 have eq: "sales = s1 @ s2" by simp
  from match_bids_shape [OF m1] have pr: "price ` set b1 = price ` set bs"
    by (metis set_map)
  from Cons.prems(2) eq consider "s \<in> set s1" | "s \<in> set s2" by auto
  then show ?case
  proof cases
    case 1
    from match_bids_price [OF m1 1] show ?thesis by simp
  next
    case 2
    from Cons.IH [OF m2 2] obtain x y where
      "x \<in> set as" "price s = price x" "y \<in> set b1" "price x \<le> price y" by blast
    moreover from this pr obtain y' where "y' \<in> set bs" "price y' = price y"
      by (metis imageE imageI)
    ultimately have "x \<in> set (a # as)" "price s = price x" "y' \<in> set bs" "price x \<le> price y'"
      by simp_all
    then show ?thesis by blast
  qed
qed

section \<open>Properties of the rounding of doubles\<close>

lemma pow2_powr: "pow2 k = 2 powr of_int k"
  by (simp add: pow2_def powr_real_of_int inverse_eq_divide)

lemma pow2_pos: "0 < pow2 k"
  by (simp add: pow2_powr)

lemma pow2_add: "pow2 (a + b) = pow2 a * pow2 b"
  by (simp add: pow2_powr powr_add)

lemma pow2_le_iff: "pow2 a \<le> pow2 b \<longleftrightarrow> a \<le> b"
  by (simp add: pow2_powr)

lemma pow2_less_iff: "pow2 a < pow2 b \<longleftrightarrow> a < b"
  by (simp add: pow2_powr)

lemma pow2_int: "0 \<le> k \<Longrightarrow> pow2 k = of_int (2 ^ nat k)"
  by (simp add: pow2_def)

lemma log_bounds:
  "0 < x \<Longrightarrow> pow2 \<lfloor>log 2 x\<rfloor> \<le> x \<and> x < pow2 (\<lfloor>log 2 x\<rfloor> + 1)"
  using floor_log_eq_powr_iff [of x 2 "\<lfloor>log 2 x\<rfloor>"] by (simp add: pow2_powr)

lemma round_even_of_int: "round_even (of_int n) = n"
  by (simp add: round_even_def)

lemma round_even_le: "r \<le> of_int N \<Longrightarrow> round_even r \<le> N"
proof -
  assume le: "r \<le> of_int N"
  then have f: "\<lfloor>r\<rfloor> \<le> N" by (simp add: floor_le_iff)
  show ?thesis
  proof (cases "\<lfloor>r\<rfloor> = N")
    case True
    with le have "r = of_int N" by linarith
    then show ?thesis by (simp add: round_even_of_int)
  next
    case False
    with f have "\<lfloor>r\<rfloor> + 1 \<le> N" by simp
    with f show ?thesis by (simp add: round_even_def Let_def)
  qed
qed

lemma round_even_ge: "of_int N \<le> r \<Longrightarrow> N \<le> round_even r"
proof -
  assume "of_int N \<le> r"
  then have "N \<le> \<lfloor>r\<rfloor>" by (simp add: le_floor_iff)
  then show ?thesis by (simp add: round_even_def Let_def)
qed

lemma ulp_exp_bounds:
  assumes "0 < z"
  shows "- 1074 \<le> ulp_exp z" and "z < pow2 (ulp_exp z + 53)"
proof -
  show "- 1074 \<le> ulp_exp z" by (simp add: ulp_exp_def)
  have "z < pow2 (\<lfloor>log 2 z\<rfloor> + 1)" using log_bounds [OF assms] by simp
  also have "\<dots> \<le> pow2 (ulp_exp z + 53)"
    using assms by (simp add: pow2_le_iff ulp_exp_def)
  finally show "z < pow2 (ulp_exp z + 53)" .
qed

lemma round_double_nonneg: "0 \<le> z \<Longrightarrow> 0 \<le> round_double z"
proof (cases "z = 0")
  case True
  then show ?thesis by (simp add: round_double_def)
next
  case False
  assume "0 \<le> z"
  then have "of_int 0 \<le> z / pow2 (ulp_exp z)" using pow2_pos [of "ulp_exp z"] by simp
  then have "0 \<le> round_even (z / pow2 (ulp_exp z))" by (rule round_even_ge)
  with False show ?thesis
    using pow2_pos [of "ulp_exp z"] by (simp add: round_double_def)
qed

text \<open>A double that is at least z lies on the grid on which z is rounded.\<close>

lemma double_on_grid:
  assumes d: "is_double x" and z: "0 < z" "z \<le> x"
  shows "\<exists>N::int. x = pow2 (ulp_exp z) * of_int N"
proof -
  from d obtain m e :: int where m: "\<bar>m\<bar> < 2 ^ 53" and e: "- 1074 \<le> e"
    and x: "x = of_int m * pow2 e" by (auto simp: is_double_def)
  let ?u = "ulp_exp z"
  have ue: "?u \<le> e"
  proof (rule ccontr)
    assume "\<not> ?u \<le> e"
    with e have lt: "e + 53 \<le> \<lfloor>log 2 z\<rfloor>" using z by (simp add: ulp_exp_def max_def split: if_splits)
    have "m < 2 ^ 53" using m by simp
    then have "real_of_int m < of_int (2 ^ 53)" by (simp only: of_int_less_iff)
    then have "x < of_int (2 ^ 53) * pow2 e"
      unfolding x using pow2_pos [of e] by (rule mult_strict_right_mono)
    also have "\<dots> = pow2 (e + 53)"
    proof -
      have "pow2 53 = of_int (2 ^ 53)" by (simp add: pow2_def)
      then show ?thesis by (simp only: pow2_add mult.commute)
    qed
    also have "\<dots> \<le> pow2 \<lfloor>log 2 z\<rfloor>" using lt by (simp add: pow2_le_iff)
    also have "\<dots> \<le> z" using log_bounds [OF z(1)] by simp
    finally show False using z(2) by simp
  qed
  then have "pow2 e = pow2 ?u * of_int (2 ^ nat (e - ?u))"
    using pow2_add [of ?u "e - ?u"] pow2_int [of "e - ?u"] by simp
  then have "x = pow2 ?u * of_int (m * 2 ^ nat (e - ?u))"
    unfolding x by simp
  then show ?thesis by blast
qed

lemma round_double_le:
  assumes d: "is_double x" and z: "0 < z" "z \<le> x"
  shows "round_double z \<le> x"
proof -
  let ?u = "ulp_exp z"
  from double_on_grid [OF d z] obtain N :: int where N: "x = pow2 ?u * of_int N" by blast
  have "z / pow2 ?u \<le> of_int N"
    using z(2) pow2_pos [of ?u] unfolding N by (simp add: field_simps)
  then have "round_even (z / pow2 ?u) \<le> N" by (rule round_even_le)
  then have "pow2 ?u * of_int (round_even (z / pow2 ?u)) \<le> pow2 ?u * of_int N"
    using pow2_pos [of ?u] by simp
  with z(1) N show ?thesis by (simp add: round_double_def)
qed

lemma round_double_fix:
  assumes d: "is_double x" and nn: "0 \<le> x"
  shows "round_double x = x"
proof (cases "x = 0")
  case True
  then show ?thesis by (simp add: round_double_def)
next
  case False
  with nn have pos: "0 < x" by simp
  from double_on_grid [OF d pos order_refl] obtain N :: int
    where N: "x = pow2 (ulp_exp x) * of_int N" by blast
  have "pow2 (ulp_exp x) * of_int N / pow2 (ulp_exp x) = of_int N"
    using pow2_pos [of "ulp_exp x"] by simp
  with N have "x / pow2 (ulp_exp x) = of_int N" by simp
  with False N show ?thesis by (simp add: round_double_def round_even_of_int)
qed

lemma double_below_top:
  assumes "is_double x"
  shows "x < pow2 1024"
proof -
  from assms obtain m e :: int where m: "\<bar>m\<bar> < 2 ^ 53" and e: "e \<le> 971"
    and x: "x = of_int m * pow2 e" by (auto simp: is_double_def)
  have "m < 2 ^ 53" using m by simp
  then have "real_of_int m < of_int (2 ^ 53)" by (simp only: of_int_less_iff)
  then have "x < of_int (2 ^ 53) * pow2 e"
    unfolding x using pow2_pos [of e] by (rule mult_strict_right_mono)
  also have "\<dots> = pow2 (e + 53)"
  proof -
    have "pow2 53 = of_int (2 ^ 53)" by (simp add: pow2_def)
    then show ?thesis by (simp only: pow2_add mult.commute)
  qed
  also have "\<dots> \<le> pow2 1024" using e by (simp add: pow2_le_iff)
  finally show ?thesis .
qed

lemma round_double_closed:
  assumes d: "is_double x" and z: "0 < z" "z \<le> x"
  shows "is_double (round_double z)"
proof -
  let ?u = "ulp_exp z"
  let ?n = "round_even (z / pow2 ?u)"
  have r: "round_double z = pow2 ?u * of_int ?n"
    using z(1) by (simp add: round_double_def)
  have top: "x < pow2 1024" by (rule double_below_top [OF d])
  have lo: "- 1074 \<le> ?u" and hi: "z < pow2 (?u + 53)"
    by (rule ulp_exp_bounds [OF z(1)])+
  have p53: "pow2 53 = of_int (2 ^ 53)" by (simp add: pow2_def)
  have "of_int 0 \<le> z / pow2 ?u" using z(1) pow2_pos [of ?u] by simp
  then have n0: "0 \<le> ?n" by (rule round_even_ge)
  have "z / pow2 ?u < pow2 53"
    using hi pow2_pos [of ?u] by (simp add: pow2_add field_simps)
  then have "z / pow2 ?u \<le> of_int (2 ^ 53)" by (simp only: p53)
  then have n53: "?n \<le> 2 ^ 53" by (rule round_even_le)
  show ?thesis
  proof (cases "?n = 2 ^ 53")
    case True
    have "round_double z = pow2 (?u + 53)"
      unfolding r True by (simp only: pow2_add p53 mult.commute)
    moreover have "round_double z \<le> x" by (rule round_double_le [OF d z])
    ultimately have "pow2 (?u + 53) < pow2 1024" using top by simp
    then have u: "?u + 1 \<le> 971" by (simp add: pow2_less_iff)
    have "pow2 52 = of_int (2 ^ 52)" by (simp add: pow2_def)
    then have "round_double z = of_int (2 ^ 52) * pow2 (?u + 1)"
      using \<open>round_double z = pow2 (?u + 53)\<close> pow2_add [of 52 "?u + 1"] by (simp add: add.commute)
    moreover have "\<bar>2 ^ 52 :: int\<bar> < 2 ^ 53" by simp
    ultimately show ?thesis
      unfolding is_double_def using u lo by (intro exI [of _ "2 ^ 52"] exI [of _ "?u + 1"]) simp
  next
    case False
    with n53 n0 have n: "\<bar>?n\<bar> < 2 ^ 53" by simp
    have "pow2 \<lfloor>log 2 z\<rfloor> \<le> z" using log_bounds [OF z(1)] by simp
    with z(2) top have "pow2 \<lfloor>log 2 z\<rfloor> < pow2 1024" by simp
    then have "\<lfloor>log 2 z\<rfloor> < 1024" by (simp add: pow2_less_iff)
    then have u: "?u \<le> 971" using z(1) by (simp add: ulp_exp_def)
    have "round_double z = of_int ?n * pow2 ?u" unfolding r by simp
    with n lo u show ?thesis
      unfolding is_double_def by (intro exI [of _ ?n] exI [of _ ?u]) simp
  qed
qed

lemma dsub_bounds:
  assumes "is_double x" and "0 \<le> y" and "y < x"
  shows "is_double (dsub x y)" and "0 \<le> dsub x y" and "dsub x y \<le> x"
proof -
  from assms(2,3) have z: "0 < x - y" "x - y \<le> x" by simp_all
  show "is_double (dsub x y)" unfolding dsub_def by (rule round_double_closed [OF assms(1) z])
  show "0 \<le> dsub x y" unfolding dsub_def using z(1) by (intro round_double_nonneg) simp
  show "dsub x y \<le> x" unfolding dsub_def by (rule round_double_le [OF assms(1) z])
qed

lemma is_double_examples:
  "is_double 0" "is_double 1" "is_double 5" "is_double 10" "is_double 20" "is_double 40"
  "is_double 50" "is_double 60" "is_double (1 / 2 ^ 55)"
proof -
  have a: "is_double (of_int m * pow2 e)" if "\<bar>m\<bar> < 2 ^ 53" "- 1074 \<le> e" "e \<le> 971" for m e
    using that unfolding is_double_def by blast
  show "is_double 0" using a [of 0 0] by simp
  show "is_double 1" using a [of 1 0] by (simp add: pow2_def)
  show "is_double 5" using a [of 5 0] by (simp add: pow2_def)
  show "is_double 10" using a [of 10 0] by (simp add: pow2_def)
  show "is_double 20" using a [of 20 0] by (simp add: pow2_def)
  show "is_double 40" using a [of 40 0] by (simp add: pow2_def)
  show "is_double 50" using a [of 50 0] by (simp add: pow2_def)
  show "is_double 60" using a [of 60 0] by (simp add: pow2_def)
  show "is_double (1 / 2 ^ 55)" using a [of 1 "- 55"] by (simp add: pow2_def)
qed

lemma dsub_exact: "is_double (x - y) \<Longrightarrow> 0 \<le> x - y \<Longrightarrow> dsub x y = x - y"
  by (simp add: dsub_def round_double_fix)

text \<open>The difference that is rounded: 1 - 2^-55 lies nearer to 1 than to 1 - 2^-53.\<close>

lemma dsub_rounds: "dsub 1 (1 / 2 ^ 55) = 1"
proof -
  let ?z = "1 - 1 / 2 ^ 55 :: real"
  have "\<lfloor>log 2 ?z\<rfloor> = - 1"
    by (subst floor_log_eq_powr_iff) (simp_all add: powr_minus)
  then have u: "ulp_exp ?z = - 53" by (simp add: ulp_exp_def)
  have q: "?z / pow2 (- 53) = 2 ^ 53 - 1 / 4" by (simp add: pow2_def)
  have fl: "\<lfloor>2 ^ 53 - 1 / 4 :: real\<rfloor> = 2 ^ 53 - 1"
    by (rule floor_unique) simp_all
  have "round_even (2 ^ 53 - 1 / 4) = 2 ^ 53"
    unfolding round_even_def fl by simp
  with u q show ?thesis by (simp add: dsub_def round_double_def pow2_def)
qed

section \<open>Properties of the matching loop with rounded subtraction\<close>

lemma match_bids_with_exact: "match_bids_with (-) ts prd a bs = match_bids ts prd a bs"
  by (induction bs arbitrary: a) (simp_all add: Let_def)

lemma match_asks_with_exact: "match_asks_with (-) ts prd as bs = match_asks ts prd as bs"
  by (induction as arbitrary: bs) (simp_all add: match_bids_with_exact)

lemma new_sale_price: "price (new_sale ts prd a b) = price a"
  by (simp add: new_sale_def Let_def)

lemma match_bids_double:
  "match_bids_with dsub ts prd a bs = (sales, a', bs') \<Longrightarrow> double_amount a \<Longrightarrow>
   \<forall>b\<in>set bs. double_amount b \<Longrightarrow>
   double_amount a' \<and> amount a' \<le> amount a \<and> price a' = price a \<and>
   (\<forall>b\<in>set bs'. double_amount b) \<and>
   list_all2 (\<lambda>b' b. amount b' \<le> amount b \<and> price b' = price b) bs' bs \<and>
   (\<forall>s\<in>set sales. 0 \<le> amount s \<and> amount s \<le> amount a \<and> price s = price a \<and>
      (\<exists>b\<in>set bs. price a \<le> price b \<and> amount s \<le> amount b))"
proof (induction bs arbitrary: a sales a' bs')
  case Nil
  then show ?case by simp
next
  case (Cons b bs)
  have refl: "list_all2 (\<lambda>b' b. amount b' \<le> amount b \<and> price b' = price b) bs bs"
    by (simp add: list_all2_refl)
  from Cons.prems have da: "is_double (amount a)" "0 \<le> amount a"
    and db: "is_double (amount b)" "0 \<le> amount b"
    and dbs: "\<forall>x\<in>set bs. double_amount x"
    by (simp_all add: double_amount_def)
  consider (skip) "\<not> price a \<le> price b \<or> (amount b \<noteq> amount a \<and> \<not> amount a < amount b \<and> \<not> (amount b < amount a \<and> 0 < amount b))"
    | (equal) "price a \<le> price b" "amount b = amount a"
    | (larger) "price a \<le> price b" "amount a < amount b"
    | (smaller) "price a \<le> price b" "amount b < amount a" "0 < amount b"
    by linarith
  then show ?case
  proof cases
    case skip
    obtain s1 a1 b1 where m: "match_bids_with dsub ts prd a bs = (s1, a1, b1)"
      by (cases "match_bids_with dsub ts prd a bs") auto
    from skip m Cons.prems(1) have eq: "sales = s1" "a' = a1" "bs' = b # b1"
      by (auto simp: Let_def split: if_splits)
    from Cons.IH [OF m Cons.prems(2) dbs] eq Cons.prems(3) show ?thesis
      by (fastforce simp: double_amount_def)
  next
    case equal
    with Cons.prems(1) have eq: "sales = [(new_sale ts prd a b)\<lparr>amount := amount a\<rparr>]" "a' = a"
      "bs' = b\<lparr>amount := 0\<rparr> # bs" by (auto simp: Let_def)
    from eq equal Cons.prems(2,3) da db refl is_double_examples(1) show ?thesis
      by (simp add: double_amount_def new_sale_price)
  next
    case larger
    with Cons.prems(1) have eq: "sales = [(new_sale ts prd a b)\<lparr>amount := amount a\<rparr>]" "a' = a"
      "bs' = b\<lparr>amount := dsub (amount b) (amount a)\<rparr> # bs" by (auto simp: Let_def)
    from dsub_bounds [OF db(1) da(2) larger(2)] eq larger Cons.prems(2,3) da db refl show ?thesis
      by (simp add: double_amount_def new_sale_price)
  next
    case smaller
    let ?a = "a\<lparr>amount := dsub (amount a) (amount b)\<rparr>"
    obtain s1 a1 b1 where m: "match_bids_with dsub ts prd ?a bs = (s1, a1, b1)"
      by (cases "match_bids_with dsub ts prd ?a bs") auto
    from smaller m Cons.prems(1) have eq: "sales = (new_sale ts prd a b)\<lparr>amount := amount b\<rparr> # s1"
      "a' = a1" "bs' = b\<lparr>amount := 0\<rparr> # b1"
      by (auto simp: Let_def)
    note bnd = dsub_bounds [OF da(1) db(2) smaller(2)]
    from bnd have d: "double_amount ?a" by (simp add: double_amount_def)
    from Cons.IH [OF m d dbs] eq bnd smaller db is_double_examples(1) show ?thesis
      by (fastforce simp: double_amount_def new_sale_price)
  qed
qed

lemma list_all2_witness:
  "list_all2 P xs ys \<Longrightarrow> x \<in> set xs \<Longrightarrow> \<exists>y\<in>set ys. P x y"
  by (induction rule: list_all2_induct) auto

lemma match_asks_double:
  "match_asks_with dsub ts prd as bs = (sales, as', bs') \<Longrightarrow> \<forall>a\<in>set as. double_amount a \<Longrightarrow>
   \<forall>b\<in>set bs. double_amount b \<Longrightarrow>
   (\<forall>b\<in>set bs'. double_amount b) \<and>
   list_all2 (\<lambda>b' b. amount b' \<le> amount b \<and> price b' = price b) bs' bs \<and>
   (\<forall>s\<in>set sales. 0 \<le> amount s \<and>
      (\<exists>a\<in>set as. \<exists>b\<in>set bs. price s = price a \<and> price a \<le> price b \<and>
         amount s \<le> amount a \<and> amount s \<le> amount b))"
proof (induction as arbitrary: bs sales as' bs')
  case Nil
  then show ?case by (simp add: list_all2_refl)
next
  case (Cons a as)
  let ?P = "\<lambda>b' b. amount b' \<le> amount b \<and> price b' = price b"
  obtain s1 a1 b1 where m1: "match_bids_with dsub ts prd a bs = (s1, a1, b1)"
    by (cases "match_bids_with dsub ts prd a bs") auto
  obtain s2 a2 b2 where m2: "match_asks_with dsub ts prd as b1 = (s2, a2, b2)"
    by (cases "match_asks_with dsub ts prd as b1") auto
  from Cons.prems(1) m1 m2 have eq: "sales = s1 @ s2" "bs' = b2" by simp_all
  from Cons.prems(2) have da: "double_amount a" and das: "\<forall>x\<in>set as. double_amount x" by simp_all
  note first = match_bids_double [OF m1 da Cons.prems(3)]
  from first have db1: "\<forall>b\<in>set b1. double_amount b" and l1: "list_all2 ?P b1 bs" by simp_all
  note rest = Cons.IH [OF m2 das db1]
  from rest have l2: "list_all2 ?P b2 b1" by simp
  have l: "list_all2 ?P b2 bs"
    using l2 l1 by (rule list_all2_trans [rotated]) auto
  have sales: "0 \<le> amount s \<and>
      (\<exists>x\<in>set (a # as). \<exists>b\<in>set bs. price s = price x \<and> price x \<le> price b \<and>
         amount s \<le> amount x \<and> amount s \<le> amount b)" if "s \<in> set sales" for s
  proof -
    from that eq consider "s \<in> set s1" | "s \<in> set s2" by auto
    then show ?thesis
    proof cases
      case 1
      with first show ?thesis by fastforce
    next
      case 2
      with rest obtain x y where xy: "0 \<le> amount s" "x \<in> set as" "y \<in> set b1"
        "price s = price x" "price x \<le> price y" "amount s \<le> amount x" "amount s \<le> amount y"
        by blast
      from list_all2_witness [OF l1 xy(3)] obtain y' where "y' \<in> set bs"
        "amount y \<le> amount y'" "price y = price y'" by blast
      with xy show ?thesis by fastforce
    qed
  qed
  from rest eq l sales show ?case by blast
qed

lemma match_bids_zero:
  "match_bids_with dsub ts prd a bs = (sales, a', bs') \<Longrightarrow> 0 \<le> amount a \<Longrightarrow>
   0 \<le> amount a' \<and> list_all2 (\<lambda>b' b. amount b = 0 \<longrightarrow> amount b' = 0) bs' bs"
proof (induction bs arbitrary: a sales a' bs')
  case Nil
  then show ?case by simp
next
  case (Cons b bs)
  have nn: "0 \<le> dsub (amount a) (amount b)" if "amount b < amount a"
    unfolding dsub_def using that by (intro round_double_nonneg) simp
  from Cons show ?case
    by (fastforce simp: Let_def list_all2_refl nn split: if_splits prod.splits)
qed

lemma match_asks_zero:
  "match_asks_with dsub ts prd as bs = (sales, as', bs') \<Longrightarrow> \<forall>a\<in>set as. 0 \<le> amount a \<Longrightarrow>
   list_all2 (\<lambda>b' b. amount b = 0 \<longrightarrow> amount b' = 0) bs' bs"
proof (induction as arbitrary: bs sales as' bs')
  case Nil
  then show ?case by (simp add: list_all2_refl)
next
  case (Cons a as)
  obtain s1 a1 b1 where m1: "match_bids_with dsub ts prd a bs = (s1, a1, b1)"
    by (cases "match_bids_with dsub ts prd a bs") auto
  obtain s2 a2 b2 where m2: "match_asks_with dsub ts prd as b1 = (s2, a2, b2)"
    by (cases "match_asks_with dsub ts prd as b1") auto
  from Cons.prems(1) m1 m2 have eq: "bs' = b2" by simp
  from Cons.prems(2) have nn: "0 \<le> amount a" "\<forall>x\<in>set as. 0 \<le> amount x" by simp_all
  from match_bids_zero [OF m1 nn(1)]
  have l1: "list_all2 (\<lambda>b' b. amount b = 0 \<longrightarrow> amount b' = 0) b1 bs" by simp
  have l2: "list_all2 (\<lambda>b' b. amount b = 0 \<longrightarrow> amount b' = 0) b2 b1"
    by (rule Cons.IH [OF m2 nn(2)])
  from l2 l1 have "list_all2 (\<lambda>b' b. amount b = 0 \<longrightarrow> amount b' = 0) b2 bs"
    by (rule list_all2_trans [rotated]) auto
  with eq show ?case by simp
qed

lemma filled_bid_stays_zero:
  assumes "price a0 \<le> price b0" and "0 < amount b0" and "amount b0 \<le> amount a0"
    and "\<forall>a\<in>set as0. 0 \<le> amount a"
  shows "amount (snd (snd (match_asks_with dsub ts prd as0
           (pre0 @ snd (snd (match_bids_with dsub ts prd a0 (b0 # post0)))))) ! length pre0) = 0"
proof -
  obtain s1 a1 b1 where m1: "match_bids_with dsub ts prd a0 (b0 # post0) = (s1, a1, b1)"
    by (cases "match_bids_with dsub ts prd a0 (b0 # post0)") auto
  from assms(1-3) m1 obtain rest where b1: "b1 = b0\<lparr>amount := 0\<rparr> # rest"
    by (cases "amount b0 = amount a0") (auto simp: Let_def split: prod.splits)
  obtain s2 a2 b2 where m2: "match_asks_with dsub ts prd as0 (pre0 @ b1) = (s2, a2, b2)"
    by (cases "match_asks_with dsub ts prd as0 (pre0 @ b1)") auto
  from match_asks_zero [OF m2 assms(4)]
  have l: "list_all2 (\<lambda>b' b. amount b = 0 \<longrightarrow> amount b' = 0) b2 (pre0 @ b1)" .
  have "amount ((pre0 @ b1) ! length pre0) = 0" by (simp add: b1)
  moreover have "length pre0 < length (pre0 @ b1)" by (simp add: b1)
  ultimately have "amount (b2 ! length pre0) = 0"
    using l by (auto simp: list_all2_conv_all_nth)
  with m1 m2 show ?thesis by simp
qed

lemma dsub_examples:
  "dsub 50 10 = 40" "dsub 60 40 = 20" "dsub 0 (- 1) = 1"
  using is_double_examples by (simp_all add: dsub_exact)

lemma dsub_rounds_numeral: "dsub 1 (1 / 36028797018963968) = 1"
  using dsub_rounds by simp

section \<open>The claims about matching\<close>




text \<open>
  Claim C3: every trade carries the price of the ask of the pair that produced it, whatever
  the bid's price, and only pairs whose bid pays at least the ask's price produce trades.
  For the inner loop, all trades made for an ask carry that ask's price; for the outer loop
  and for matchAsksToBids, every trade carries the price of one of the asks scanned.
\<close>

theorem C3_trade_price:
  "(\<forall>s\<in>set (fst (match_bids ts prd a bs)).
      price s = price a \<and> (\<exists>b\<in>set bs. price a \<le> price b)) \<and>
   (\<forall>s\<in>set (fst (match_asks ts prd as bs)).
      \<exists>a\<in>set as. price s = price a \<and> (\<exists>b\<in>set bs. price a \<le> price b)) \<and>
   (\<forall>s\<in>set (matchAsksToBids srt_asc srt_desc orders prd ts).
      \<exists>a\<in>set (srt_asc (getOrders orders ask prd ts)).
        price s = price a \<and> (\<exists>b\<in>set (srt_desc (getOrders orders bid prd ts)). price a \<le> price b))"
proof -
  have inner: "\<forall>s\<in>set (fst (match_bids ts prd a bs)).
      price s = price a \<and> (\<exists>b\<in>set bs. price a \<le> price b)"
    by (cases "match_bids ts prd a bs") (auto dest: match_bids_price)
  have outer: "\<forall>s\<in>set (fst (match_asks ts prd xs ys)).
      \<exists>a\<in>set xs. price s = price a \<and> (\<exists>b\<in>set ys. price a \<le> price b)" for xs ys
    by (cases "match_asks ts prd xs ys") (auto dest: match_asks_price)
  have whole: "\<forall>s\<in>set (matchAsksToBids srt_asc srt_desc orders prd ts).
      \<exists>a\<in>set (srt_asc (getOrders orders ask prd ts)).
        price s = price a \<and> (\<exists>b\<in>set (srt_desc (getOrders orders bid prd ts)). price a \<le> price b)"
    using outer [of "srt_asc (getOrders orders ask prd ts)" "srt_desc (getOrders orders bid prd ts)"]
    by (simp add: matchAsksToBids_def Let_def)
  from inner outer [of as bs] whole show ?thesis by blast
qed

theorem C3_trade_price_witness:
  "fst (match_bids ''t'' ''ETH/USDT'' (entry 200 50 ''t'' ''ETH/USDT'' ask ''dataset'')
          [entry 210 10 ''t'' ''ETH/USDT'' bid ''dataset'']) =
     [entry 200 10 ''t'' ''ETH/USDT'' asksale ''dataset''] \<and>
   price (hd (fst (match_bids ''t'' ''ETH/USDT'' (entry 200 50 ''t'' ''ETH/USDT'' ask ''dataset'')
          [entry 210 10 ''t'' ''ETH/USDT'' bid ''dataset'']))) =
     price (entry 200 50 ''t'' ''ETH/USDT'' ask ''dataset'')"
  using C3_trade_price [of "''t''" "''ETH/USDT''" "entry 200 50 ''t'' ''ETH/USDT'' ask ''dataset''"
      "[entry 210 10 ''t'' ''ETH/USDT'' bid ''dataset'']"]
  by (simp add: new_sale_def)

text \<open>
  Claim C4 as written fails on the program in three ways.
  An ask that is filled in full keeps its amount: the loop leaves it by \<^verbatim>\<open>break\<close> and
  only the bid is written (ask of 5 against bid of 5: one trade of 5, the ask still holds
  5).
  The sums are not bounded, because the remaining amounts are rounded: an ask of 1 against
  bids of \<open>2^-55\<close> and of 1 trades \<open>2^-55\<close>, is left with \<open>1 - 2^-55\<close>, which the
  machine rounds to 1, and then trades 1; the trades sum to more than the ask.
  And a bid that was filled in full does not stay at 0 when an ask amount is negative
  (asks of 5 and of -1 against a bid of 5: the bid ends with 1).
\<close>

theorem C4_counterexample:
  "match_asks_with dsub ''t'' ''BTC/USDT''
     [entry 100 5 ''t'' ''BTC/USDT'' ask ''dataset'']
     [entry 100 5 ''t'' ''BTC/USDT'' bid ''dataset''] =
     ([entry 100 5 ''t'' ''BTC/USDT'' asksale ''dataset''],
      [entry 100 5 ''t'' ''BTC/USDT'' ask ''dataset''],
      [entry 100 0 ''t'' ''BTC/USDT'' bid ''dataset'']) \<and>
   match_asks_with dsub ''t'' ''BTC/USDT''
     [entry 100 1 ''t'' ''BTC/USDT'' ask ''simuser'']
     [entry 101 (1 / 2 ^ 55) ''t'' ''BTC/USDT'' bid ''simuser'',
      entry 100 1 ''t'' ''BTC/USDT'' bid ''simuser''] =
     ([entry 100 (1 / 2 ^ 55) ''t'' ''BTC/USDT'' asksale ''simuser'',
       entry 100 1 ''t'' ''BTC/USDT'' asksale ''simuser''],
      [entry 100 1 ''t'' ''BTC/USDT'' ask ''simuser''],
      [entry 101 0 ''t'' ''BTC/USDT'' bid ''simuser'',
       entry 100 0 ''t'' ''BTC/USDT'' bid ''simuser'']) \<and>
   \<not> sum_amounts [entry 100 (1 / 2 ^ 55) ''t'' ''BTC/USDT'' asksale ''simuser'',
                   entry 100 1 ''t'' ''BTC/USDT'' asksale ''simuser'']
       \<le> sum_amounts [entry 100 1 ''t'' ''BTC/USDT'' ask ''simuser''] \<and>
   match_asks_with dsub ''t'' ''BTC/USDT''
     [entry 100 5 ''t'' ''BTC/USDT'' ask ''dataset'', entry 100 (- 1) ''t'' ''BTC/USDT'' ask ''dataset'']
     [entry 100 5 ''t'' ''BTC/USDT'' bid ''dataset''] =
     ([entry 100 5 ''t'' ''BTC/USDT'' asksale ''dataset'',
       entry 100 (- 1) ''t'' ''BTC/USDT'' asksale ''dataset''],
      [entry 100 5 ''t'' ''BTC/USDT'' ask ''dataset'', entry 100 (- 1) ''t'' ''BTC/USDT'' ask ''dataset''],
      [entry 100 1 ''t'' ''BTC/USDT'' bid ''dataset''])"
  by (simp add: new_sale_def sum_amounts_def dsub_rounds_numeral dsub_examples)

text \<open>
  Claim C4, amended: for one run of the matching loop on working lists whose amounts are
  doubles and not negative:
  every trade has an amount that is not negative and exceeds neither the original amount
  of an ask of its price nor the original amount of a bid that pays that price;
  no bid amount grows and none ends negative;
  when the run gives what exact subtraction gives (no remaining amount was rounded), the
  trades sum to at most the asks' original amounts and to at most the bids' original
  amounts;
  and from a pairing that fills a bid in full (\<open>0 < amount b0 \<le> amount a0\<close>, the bid
  reached by the scan of \<open>a0\<close> after the bids \<open>pre0\<close>, with \<open>post0\<close> and the asks
  \<open>as0\<close> still to come) to the end of the call, that bid holds 0.
  Nothing is said of the final amount of an ask that was filled in full, nor of the sums
  when a remaining amount is rounded.
\<close>

theorem C4_amount_conservation:
  assumes "\<forall>a\<in>set as. double_amount a" and "\<forall>b\<in>set bs. double_amount b"
    and "match_asks_with dsub ts prd as bs = (sales, as', bs')"
  shows
    "(\<forall>s\<in>set sales. 0 \<le> amount s \<and>
        (\<exists>a\<in>set as. \<exists>b\<in>set bs. price s = price a \<and> price a \<le> price b \<and>
           amount s \<le> amount a \<and> amount s \<le> amount b)) \<and>
     length bs' = length bs \<and>
     (\<forall>j<length bs. 0 \<le> amount (bs' ! j) \<and> amount (bs' ! j) \<le> amount (bs ! j)) \<and>
     (match_asks_with (-) ts prd as bs = (sales, as', bs') \<longrightarrow>
        sum_amounts sales \<le> sum_amounts as \<and> sum_amounts sales \<le> sum_amounts bs) \<and>
     (price a0 \<le> price b0 \<and> 0 < amount b0 \<and> amount b0 \<le> amount a0 \<and>
      (\<forall>a\<in>set as0. 0 \<le> amount a) \<longrightarrow>
        amount (snd (snd (match_asks_with dsub ts prd as0
           (pre0 @ snd (snd (match_bids_with dsub ts prd a0 (b0 # post0)))))) ! length pre0) = 0)"
proof -
  note d = match_asks_double [OF assms(3,1,2)]
  from d have trades: "\<forall>s\<in>set sales. 0 \<le> amount s \<and>
        (\<exists>a\<in>set as. \<exists>b\<in>set bs. price s = price a \<and> price a \<le> price b \<and>
           amount s \<le> amount a \<and> amount s \<le> amount b)" by blast
  from d have l: "list_all2 (\<lambda>b' b. amount b' \<le> amount b \<and> price b' = price b) bs' bs"
    and nn: "\<forall>b\<in>set bs'. double_amount b" by blast+
  from l have len: "length bs' = length bs" by (rule list_all2_lengthD)
  have bids: "\<forall>j<length bs. 0 \<le> amount (bs' ! j) \<and> amount (bs' ! j) \<le> amount (bs ! j)"
    using l nn len by (auto simp: list_all2_conv_all_nth double_amount_def)
  have sums: "sum_amounts sales \<le> sum_amounts as \<and> sum_amounts sales \<le> sum_amounts bs"
    if ex: "match_asks_with (-) ts prd as bs = (sales, as', bs')"
  proof -
    from ex have m: "match_asks ts prd as bs = (sales, as', bs')"
      by (simp add: match_asks_with_exact)
    from assms(1) have a: "\<forall>a\<in>set as. 0 \<le> amount a" by (simp add: double_amount_def)
    from assms(2) have b: "\<forall>b\<in>set bs. 0 \<le> amount b" by (simp add: double_amount_def)
    have "\<forall>b\<in>set bs'. 0 \<le> amount b" by (rule match_asks_nonneg_bids [OF m b])
    then have "0 \<le> sum_amounts bs'"
      unfolding sum_amounts_def by (auto intro!: sum_list_nonneg)
    with match_asks_sum_bids [OF m] match_asks_sum_asks [OF m a] show ?thesis by simp
  qed
  have fill: "price a0 \<le> price b0 \<and> 0 < amount b0 \<and> amount b0 \<le> amount a0 \<and>
      (\<forall>a\<in>set as0. 0 \<le> amount a) \<longrightarrow>
        amount (snd (snd (match_asks_with dsub ts prd as0
           (pre0 @ snd (snd (match_bids_with dsub ts prd a0 (b0 # post0)))))) ! length pre0) = 0"
    using filled_bid_stays_zero [of a0 b0 as0 ts prd pre0 post0] by blast
  from trades len bids sums fill show ?thesis by blast
qed

theorem C4_amount_conservation_witness:
  "double_amount (entry 100 1 ''t'' ''BTC/USDT'' ask ''simuser'') \<and>
   double_amount (entry 101 (1 / 2 ^ 55) ''t'' ''BTC/USDT'' bid ''simuser'') \<and>
   double_amount (entry 100 1 ''t'' ''BTC/USDT'' bid ''simuser'') \<and>
   match_asks_with dsub ''t'' ''BTC/USDT''
     [entry 100 1 ''t'' ''BTC/USDT'' ask ''simuser'']
     [entry 101 (1 / 2 ^ 55) ''t'' ''BTC/USDT'' bid ''simuser'',
      entry 100 1 ''t'' ''BTC/USDT'' bid ''simuser''] =
     ([entry 100 (1 / 2 ^ 55) ''t'' ''BTC/USDT'' asksale ''simuser'',
       entry 100 1 ''t'' ''BTC/USDT'' asksale ''simuser''],
      [entry 100 1 ''t'' ''BTC/USDT'' ask ''simuser''],
      [entry 101 0 ''t'' ''BTC/USDT'' bid ''simuser'',
       entry 100 0 ''t'' ''BTC/USDT'' bid ''simuser'']) \<and>
   amount (entry 100 (1 / 2 ^ 55) ''t'' ''BTC/USDT'' asksale ''simuser'')
     \<le> amount (entry 100 1 ''t'' ''BTC/USDT'' ask ''simuser'') \<and>
   amount (entry 100 1 ''t'' ''BTC/USDT'' asksale ''simuser'')
     \<le> amount (entry 100 1 ''t'' ''BTC/USDT'' ask ''simuser'') \<and>
   match_asks_with dsub ''t'' ''ETH/USDT''
     [entry 200 50 ''t'' ''ETH/USDT'' ask ''dataset'']
     [entry 205 10 ''t'' ''ETH/USDT'' bid ''dataset'',
      entry 200 60 ''t'' ''ETH/USDT'' bid ''dataset''] =
   match_asks_with (-) ''t'' ''ETH/USDT''
     [entry 200 50 ''t'' ''ETH/USDT'' ask ''dataset'']
     [entry 205 10 ''t'' ''ETH/USDT'' bid ''dataset'',
      entry 200 60 ''t'' ''ETH/USDT'' bid ''dataset''] \<and>
   sum_amounts (fst (match_asks_with dsub ''t'' ''ETH/USDT''
     [entry 200 50 ''t'' ''ETH/USDT'' ask ''dataset'']
     [entry 205 10 ''t'' ''ETH/USDT'' bid ''dataset'',
      entry 200 60 ''t'' ''ETH/USDT'' bid ''dataset''])) = 50 \<and>
   amount (snd (snd (match_asks_with dsub ''t'' ''ETH/USDT'' []
     ([] @ snd (snd (match_bids_with dsub ''t'' ''ETH/USDT''
        (entry 200 50 ''t'' ''ETH/USDT'' ask ''dataset'')
        (entry 205 10 ''t'' ''ETH/USDT'' bid ''dataset'' #
         [entry 200 60 ''t'' ''ETH/USDT'' bid ''dataset'']))))))
     ! length ([] :: OrderBookEntry list)) = 0"
proof -
  have d: "\<forall>a\<in>set [entry 100 1 ''t'' ''BTC/USDT'' ask ''simuser'']. double_amount a"
    "\<forall>b\<in>set [entry 101 (1 / 2 ^ 55) ''t'' ''BTC/USDT'' bid ''simuser'',
               entry 100 1 ''t'' ''BTC/USDT'' bid ''simuser'']. double_amount b"
    "\<forall>a\<in>set [entry 200 50 ''t'' ''ETH/USDT'' ask ''dataset'']. double_amount a"
    "\<forall>b\<in>set [entry 205 10 ''t'' ''ETH/USDT'' bid ''dataset'',
               entry 200 60 ''t'' ''ETH/USDT'' bid ''dataset'']. double_amount b"
    using is_double_examples by (simp_all add: double_amount_def)
  have m1: "match_asks_with dsub ''t'' ''BTC/USDT''
     [entry 100 1 ''t'' ''BTC/USDT'' ask ''simuser'']
     [entry 101 (1 / 2 ^ 55) ''t'' ''BTC/USDT'' bid ''simuser'',
      entry 100 1 ''t'' ''BTC/USDT'' bid ''simuser''] =
     ([entry 100 (1 / 2 ^ 55) ''t'' ''BTC/USDT'' asksale ''simuser'',
       entry 100 1 ''t'' ''BTC/USDT'' asksale ''simuser''],
      [entry 100 1 ''t'' ''BTC/USDT'' ask ''simuser''],
      [entry 101 0 ''t'' ''BTC/USDT'' bid ''simuser'',
       entry 100 0 ''t'' ''BTC/USDT'' bid ''simuser''])"
    by (simp add: new_sale_def dsub_rounds_numeral)
  have m2: "match_asks_with dsub ''t'' ''ETH/USDT''
     [entry 200 50 ''t'' ''ETH/USDT'' ask ''dataset'']
     [entry 205 10 ''t'' ''ETH/USDT'' bid ''dataset'',
      entry 200 60 ''t'' ''ETH/USDT'' bid ''dataset''] =
     ([entry 200 10 ''t'' ''ETH/USDT'' asksale ''dataset'',
       entry 200 40 ''t'' ''ETH/USDT'' asksale ''dataset''],
      [entry 200 40 ''t'' ''ETH/USDT'' ask ''dataset''],
      [entry 205 0 ''t'' ''ETH/USDT'' bid ''dataset'',
       entry 200 20 ''t'' ''ETH/USDT'' bid ''dataset''])"
    by (simp add: new_sale_def dsub_examples)
  have m3: "match_asks_with (-) ''t'' ''ETH/USDT''
     [entry 200 50 ''t'' ''ETH/USDT'' ask ''dataset'']
     [entry 205 10 ''t'' ''ETH/USDT'' bid ''dataset'',
      entry 200 60 ''t'' ''ETH/USDT'' bid ''dataset''] =
     ([entry 200 10 ''t'' ''ETH/USDT'' asksale ''dataset'',
       entry 200 40 ''t'' ''ETH/USDT'' asksale ''dataset''],
      [entry 200 40 ''t'' ''ETH/USDT'' ask ''dataset''],
      [entry 205 0 ''t'' ''ETH/USDT'' bid ''dataset'',
       entry 200 20 ''t'' ''ETH/USDT'' bid ''dataset''])"
    by (simp add: new_sale_def)
  from C4_amount_conservation [OF d(1,2) m1]
    C4_amount_conservation [OF d(3,4) m2,
      of "entry 200 50 ''t'' ''ETH/USDT'' ask ''dataset''"
         "entry 205 10 ''t'' ''ETH/USDT'' bid ''dataset''" "[]" "[]"
         "[entry 200 60 ''t'' ''ETH/USDT'' bid ''dataset'']"]
    d m1 m2 m3
  show ?thesis by (simp add: sum_amounts_def)
qed

text \<open>
  Claim C10: matchAsksToBids can return a trade of amount 0. Whenever the only ask for a
  product and time has amount 0 and the only bid pays at least its price and has a
  positive amount, the branch for the larger bid emits one trade of amount 0 and leaves
  the ask and the bid with the amounts they had.
\<close>

theorem C10_zero_amount_trade:
  assumes "sort_spec compareByPriceAsc srt_asc" and "sort_spec compareByPriceDesc srt_desc"
    and "orderType a = ask" and "orderType b = bid"
    and "product a = prd" and "product b = prd"
    and "timestamp a = ts" and "timestamp b = ts"
    and "amount a = 0" and "price a \<le> price b" and "0 < amount b"
  shows "matchAsksToBids srt_asc srt_desc [b, a] prd ts = [(new_sale ts prd a b)\<lparr>amount := 0\<rparr>] \<and>
         match_asks ts prd [a] [b] = ([(new_sale ts prd a b)\<lparr>amount := 0\<rparr>], [a], [b])"
proof -
  have m: "match_asks ts prd [a] [b] = ([(new_sale ts prd a b)\<lparr>amount := 0\<rparr>], [a], [b])"
    using assms(9-11) by (simp add: Let_def)
  have "getOrders [b, a] ask prd ts = [a]" "getOrders [b, a] bid prd ts = [b]"
    using assms(3-8) by (simp_all add: getOrders_def)
  with m sort_spec_single [OF assms(1)] sort_spec_single [OF assms(2)] show ?thesis
    by (simp add: matchAsksToBids_def)
qed

theorem C10_zero_amount_trade_witness:
  "matchAsksToBids (insertion_sort compareByPriceAsc) (insertion_sort compareByPriceDesc)
     [entry 210 3 ''t'' ''ETH/USDT'' bid ''dataset'', entry 200 0 ''t'' ''ETH/USDT'' ask ''dataset'']
     ''ETH/USDT'' ''t'' = [entry 200 0 ''t'' ''ETH/USDT'' asksale ''dataset''] \<and>
   match_asks ''t'' ''ETH/USDT'' [entry 200 0 ''t'' ''ETH/USDT'' ask ''dataset'']
     [entry 210 3 ''t'' ''ETH/USDT'' bid ''dataset''] =
     ([entry 200 0 ''t'' ''ETH/USDT'' asksale ''dataset''],
      [entry 200 0 ''t'' ''ETH/USDT'' ask ''dataset''],
      [entry 210 3 ''t'' ''ETH/USDT'' bid ''dataset''])"
  using C10_zero_amount_trade [OF insertion_sort_price_asc insertion_sort_price_desc,
      of "entry 200 0 ''t'' ''ETH/USDT'' ask ''dataset''"
         "entry 210 3 ''t'' ''ETH/USDT'' bid ''dataset''" "''ETH/USDT''" "''t''"]
  by (simp add: new_sale_def)


section \<open>Properties of the order book\<close>

lemma first_later_empty_iff:
  "first_later t orders = [] \<longleftrightarrow> (\<forall>e\<in>set orders. \<not> t < timestamp e)"
  by (induction orders) auto

lemma first_later_sorted:
  "sorted (map timestamp orders) \<Longrightarrow> \<exists>e\<in>set orders. t < timestamp e \<Longrightarrow>
   first_later t orders = Min {ts \<in> timestamp ` set orders. t < ts}"
proof (induction orders)
  case Nil
  then show ?case by simp
next
  case (Cons e es)
  show ?case
  proof (cases "t < timestamp e")
    case True
    have "Min {ts \<in> timestamp ` set (e # es). t < ts} = timestamp e"
    proof (rule Min_eqI)
      show "finite {ts \<in> timestamp ` set (e # es). t < ts}" by simp
      show "timestamp e \<in> {ts \<in> timestamp ` set (e # es). t < ts}" using True by simp
      fix y assume "y \<in> {ts \<in> timestamp ` set (e # es). t < ts}"
      with Cons.prems(1) show "timestamp e \<le> y" by auto
    qed
    with True show ?thesis by simp
  next
    case False
    with Cons.prems have ex: "\<exists>x\<in>set es. t < timestamp x" by auto
    from False have "{ts \<in> timestamp ` set (e # es). t < ts} = {ts \<in> timestamp ` set es. t < ts}"
      by auto
    with False Cons.IH [OF _ ex] Cons.prems(1) show ?thesis by simp
  qed
qed

lemma getNextTime_sorted:
  assumes "sorted (map timestamp orders)" and "orders \<noteq> []"
  shows "getNextTime orders t =
     Inr (if \<exists>e\<in>set orders. t < timestamp e
          then Min {ts \<in> timestamp ` set orders. t < ts}
          else timestamp (hd orders))"
proof (cases "\<exists>e\<in>set orders. t < timestamp e")
  case True
  then have "first_later t orders \<noteq> []" by (simp add: first_later_empty_iff)
  with True first_later_sorted [OF assms(1) True] show ?thesis
    by (simp add: getNextTime_def Let_def)
next
  case False
  then have "first_later t orders = []" by (simp add: first_later_empty_iff)
  with False assms(2) show ?thesis
    by (cases orders) (simp_all add: getNextTime_def)
qed

lemma getEarliestTime_sorted:
  assumes "sorted (map timestamp orders)" and "orders \<noteq> []"
  shows "getEarliestTime orders = Inr (Min (timestamp ` set orders))"
proof -
  from assms(2) obtain e es where o: "orders = e # es" by (cases orders) auto
  have "Min (timestamp ` set (e # es)) = timestamp e"
  proof (rule Min_eqI)
    show "finite (timestamp ` set (e # es))" by simp
    show "timestamp e \<in> timestamp ` set (e # es)" by simp
    fix y assume "y \<in> timestamp ` set (e # es)"
    with assms(1) o show "timestamp e \<le> y" by auto
  qed
  with o show ?thesis by (simp add: getEarliestTime_def)
qed

lemma sort_spec_timestamp_sorted:
  "sort_spec compareByTimestamp srt \<Longrightarrow> sorted (map timestamp (srt xs))"
  by (simp add: sort_spec_def compareByTimestamp_def sorted_map not_less)

lemma sort_spec_mset: "sort_spec cmp srt \<Longrightarrow> mset (srt xs) = mset xs"
  by (simp add: sort_spec_def)

lemma initial_orders_sorted: "sorted (map timestamp initial_orders)"
  by (simp add: initial_orders_def)

lemma book_after_snoc:
  "book_after srt (ins @ [x]) = insertOrder srt (book_after srt ins) x"
  by (simp add: book_after_def)

lemma book_after_mset:
  "sort_spec compareByTimestamp srt \<Longrightarrow>
   mset (book_after srt ins) = mset initial_orders + mset ins"
proof (induction ins rule: rev_induct)
  case Nil
  show ?case by (simp add: book_after_def)
next
  case (snoc x xs)
  then show ?case
    by (simp add: book_after_snoc insertOrder_def sort_spec_mset)
qed

lemma book_after_sorted:
  "sort_spec compareByTimestamp srt \<Longrightarrow> sorted (map timestamp (book_after srt ins))"
proof (induction ins rule: rev_induct)
  case Nil
  show ?case by (simp add: book_after_def initial_orders_sorted)
next
  case (snoc x xs)
  then show ?case
    by (simp add: book_after_snoc insertOrder_def sort_spec_timestamp_sorted)
qed

lemma book_after_nonempty:
  "sort_spec compareByTimestamp srt \<Longrightarrow> book_after srt ins \<noteq> []"
proof
  assume s: "sort_spec compareByTimestamp srt" and "book_after srt ins = []"
  with book_after_mset [OF s, of ins] have "mset initial_orders + mset ins = {#}" by simp
  then show False by (simp add: initial_orders_def)
qed

lemma sorted_last_max:
  "sorted (map timestamp orders) \<Longrightarrow> e \<in> set orders \<Longrightarrow> timestamp e \<le> timestamp (last orders)"
proof (induction orders)
  case Nil
  then show ?case by simp
next
  case (Cons x xs)
  then show ?case by (cases xs) auto
qed

lemma example_book:
  "book_after (insertion_sort compareByTimestamp)
     [entry 100 1 ''2020/03/17 17:01:24'' ''BTC/USDT'' ask ''simuser''] =
   [entry 10000 0.5 ''2020/03/17 17:01:24'' ''BTC/USDT'' bid ''dataset'',
    entry 10500 0.2 ''2020/03/17 17:01:24'' ''BTC/USDT'' ask ''dataset'',
    entry 10100 1.0 ''2020/03/17 17:01:24'' ''BTC/USDT'' bid ''dataset'',
    entry 100 1 ''2020/03/17 17:01:24'' ''BTC/USDT'' ask ''simuser'',
    entry 200 50 ''2020/03/17 17:01:30'' ''ETH/USDT'' ask ''dataset'',
    entry 190 10 ''2020/03/17 17:01:30'' ''ETH/USDT'' bid ''dataset'']"
  by (simp add: book_after_def initial_orders_def insertOrder_def insertion_sort_def
      compareByTimestamp_def)

section \<open>Properties of std::sort on short ranges\<close>


















section \<open>The claims about the order book\<close>

text \<open>
  Claim C5: in every book the program can hold (the constructor's records followed by any
  insertions, whatever sorting function keeps the promise of std::sort), for every time
  \<open>t\<close>: getNextTime returns the smallest stored timestamp later than \<open>t\<close> if there is
  one, and the first entry's timestamp if there is none; called with the last entry's
  timestamp it returns the first entry's.
\<close>

theorem C5_next_time:
  assumes "sort_spec compareByTimestamp srt"
  shows
    "((\<exists>e\<in>set (book_after srt ins). t < timestamp e) \<longrightarrow>
        getNextTime (book_after srt ins) t =
          Inr (Min {ts \<in> timestamp ` set (book_after srt ins). t < ts})) \<and>
     (\<not> (\<exists>e\<in>set (book_after srt ins). t < timestamp e) \<longrightarrow>
        getNextTime (book_after srt ins) t = Inr (timestamp (hd (book_after srt ins)))) \<and>
     getNextTime (book_after srt ins) (timestamp (last (book_after srt ins))) =
       Inr (timestamp (hd (book_after srt ins)))"
proof -
  let ?B = "book_after srt ins"
  have s: "sorted (map timestamp ?B)" and n: "?B \<noteq> []"
    using assms by (rule book_after_sorted, rule book_after_nonempty)
  have "\<not> (\<exists>e\<in>set ?B. timestamp (last ?B) < timestamp e)"
    using sorted_last_max [OF s] by (auto simp: not_less)
  then have "getNextTime ?B (timestamp (last ?B)) = Inr (timestamp (hd ?B))"
    by (simp add: getNextTime_sorted [OF s n])
  then show ?thesis
    by (simp add: getNextTime_sorted [OF s n])
qed

theorem C5_next_time_witness:
  "getNextTime (book_after (insertion_sort compareByTimestamp)
       [entry 100 1 ''2020/03/17 17:01:24'' ''BTC/USDT'' ask ''simuser''])
     ''2020/03/17 17:01:24'' = Inr ''2020/03/17 17:01:30'' \<and>
   getNextTime (book_after (insertion_sort compareByTimestamp)
       [entry 100 1 ''2020/03/17 17:01:24'' ''BTC/USDT'' ask ''simuser''])
     ''2020/03/17 17:01:30'' = Inr ''2020/03/17 17:01:24''"
proof -
  let ?B = "book_after (insertion_sort compareByTimestamp)
       [entry 100 1 ''2020/03/17 17:01:24'' ''BTC/USDT'' ask ''simuser'']"
  have later: "{ts \<in> timestamp ` set ?B. ''2020/03/17 17:01:24'' < ts} = {''2020/03/17 17:01:30''}"
    unfolding example_book by auto
  have ex: "\<exists>e\<in>set ?B. ''2020/03/17 17:01:24'' < timestamp e"
    unfolding example_book by simp
  have "getNextTime ?B ''2020/03/17 17:01:24'' = Inr ''2020/03/17 17:01:30''"
    using C5_next_time [OF insertion_sort_timestamp,
        of "[entry 100 1 ''2020/03/17 17:01:24'' ''BTC/USDT'' ask ''simuser'']"
           "''2020/03/17 17:01:24''"] ex later
    by simp
  moreover have "getNextTime ?B ''2020/03/17 17:01:30'' = Inr ''2020/03/17 17:01:24''"
    using C5_next_time [OF insertion_sort_timestamp,
        of "[entry 100 1 ''2020/03/17 17:01:24'' ''BTC/USDT'' ask ''simuser'']"]
    by (simp add: example_book)
  ultimately show ?thesis by simp
qed




text \<open>
  Claim C8: every book the program can hold is sorted by timestamp (and is not empty, and
  holds the constructor's records and the inserted entries); so getEarliestTime returns
  the least stored timestamp, and the scan of getNextTime, which stops at the first later
  entry, returns the least later timestamp.
\<close>

theorem C8_book_sorted:
  assumes "sort_spec compareByTimestamp srt"
  shows
    "sorted (map timestamp (book_after srt ins)) \<and>
     book_after srt ins \<noteq> [] \<and>
     mset (book_after srt ins) = mset initial_orders + mset ins \<and>
     getEarliestTime (book_after srt ins) = Inr (Min (timestamp ` set (book_after srt ins))) \<and>
     ((\<exists>e\<in>set (book_after srt ins). t < timestamp e) \<longrightarrow>
        getNextTime (book_after srt ins) t =
          Inr (Min {ts \<in> timestamp ` set (book_after srt ins). t < ts}))"
proof -
  let ?B = "book_after srt ins"
  have s: "sorted (map timestamp ?B)" and n: "?B \<noteq> []"
    using assms by (rule book_after_sorted, rule book_after_nonempty)
  from s n book_after_mset [OF assms, of ins] getEarliestTime_sorted [OF s n]
  show ?thesis
    by (simp add: getNextTime_sorted [OF s n])
qed

theorem C8_book_sorted_witness:
  "sorted (map timestamp (book_after (insertion_sort compareByTimestamp)
       [entry 100 1 ''2020/03/17 17:01:24'' ''BTC/USDT'' ask ''simuser''])) \<and>
   getEarliestTime (book_after (insertion_sort compareByTimestamp)
       [entry 100 1 ''2020/03/17 17:01:24'' ''BTC/USDT'' ask ''simuser'']) =
     Inr ''2020/03/17 17:01:24'' \<and>
   getNextTime (book_after (insertion_sort compareByTimestamp)
       [entry 100 1 ''2020/03/17 17:01:24'' ''BTC/USDT'' ask ''simuser''])
     ''2020/03/17 17:01:24'' = Inr ''2020/03/17 17:01:30''"
proof -
  let ?B = "book_after (insertion_sort compareByTimestamp)
       [entry 100 1 ''2020/03/17 17:01:24'' ''BTC/USDT'' ask ''simuser'']"
  have later: "{ts \<in> timestamp ` set ?B. ''2020/03/17 17:01:24'' < ts} = {''2020/03/17 17:01:30''}"
    unfolding example_book by auto
  have ex: "\<exists>e\<in>set ?B. ''2020/03/17 17:01:24'' < timestamp e"
    unfolding example_book by simp
  have earliest: "getEarliestTime ?B = Inr ''2020/03/17 17:01:24''"
    by (simp add: example_book getEarliestTime_def)
  from C8_book_sorted [OF insertion_sort_timestamp,
        of "[entry 100 1 ''2020/03/17 17:01:24'' ''BTC/USDT'' ask ''simuser'']"
           "''2020/03/17 17:01:24''"] ex later earliest
  show ?thesis by simp
qed


section \<open>Properties of tokenise\<close>

lemma find_from_bound:
  "find_from P cs i \<noteq> - 1 \<Longrightarrow>
   int i \<le> find_from P cs i \<and> find_from P cs i < int i + int (length cs)"
proof (induction cs arbitrary: i)
  case Nil
  then show ?case by simp
next
  case (Cons c cs)
  show ?case
  proof (cases "P c")
    case True
    then show ?thesis by simp
  next
    case False
    with Cons.prems have "find_from P cs (Suc i) \<noteq> - 1" by simp
    from Cons.IH [OF this] False show ?thesis by simp
  qed
qed

lemma find_first_of_bound:
  "find_first_of s sep pos \<noteq> - 1 \<Longrightarrow>
   0 \<le> pos \<and> pos \<le> find_first_of s sep pos \<and> find_first_of s sep pos < int (length s)"
  using find_from_bound [of "\<lambda>c. c = sep" "drop (nat pos) s" "nat pos"]
  by (auto simp: find_first_of_def split: if_splits)

lemma find_first_not_of_bound:
  "- 1 \<le> find_first_not_of s sep \<and> find_first_not_of s sep < int (length s) \<or> s = []"
  using find_from_bound [of "\<lambda>c. c \<noteq> sep" s 0]
  by (cases "find_first_not_of s sep = - 1") (auto simp: find_first_not_of_def)

lemma tokenise_loop_nonempty:
  "- 1 \<le> start \<Longrightarrow> start \<le> int (length s) \<Longrightarrow> [] \<notin> set tokens \<Longrightarrow>
   [] \<notin> set (tokenise_loop s sep start tokens)"
proof (induction s sep start tokens rule: tokenise_loop.induct)
  case (1 s sep start tokens)
  let ?e = "find_first_of s sep start"
  show ?case
  proof (cases "start = int (length s) \<or> start = ?e")
    case True
    with "1.prems" show ?thesis by (simp add: tokenise_loop.simps [of s sep start])
  next
    case stop: False
    show ?thesis
    proof (cases "?e = - 1")
      case True
      with stop "1.prems" have "0 \<le> start" "start < int (length s)" by auto
      then have "substr s start (int (length s) - start) \<noteq> []"
        by (simp add: substr_def)
      with True stop "1.prems" show ?thesis
        by (simp add: tokenise_loop.simps [of s sep start])
    next
      case False
      from find_first_of_bound [OF False] stop
      have b: "0 \<le> start" "start < ?e" "?e < int (length s)" by auto
      then have tok: "substr s start (?e - start) \<noteq> []"
        by (simp add: substr_def)
      let ?toks = "tokens @ [substr s start (?e - start)]"
      have "[] \<notin> set (tokenise_loop s sep (?e + 1) ?toks)"
        using "1.IH" [of ?e "substr s start (?e - start)" ?toks] stop b tok "1.prems"(3)
        by simp
      with stop b tok "1.prems" show ?thesis
        by (simp add: tokenise_loop.simps [of s sep start] Let_def)
    qed
  qed
qed

lemma tokenise_nonempty: "[] \<notin> set (tokenise s sep)"
proof (cases s)
  case Nil
  then show ?thesis
    by (simp add: tokenise_def find_first_not_of_def find_first_of_def tokenise_loop.simps)
next
  case (Cons c cs)
  with find_first_not_of_bound [of s sep] show ?thesis
    unfolding tokenise_def by (intro tokenise_loop_nonempty) auto
qed

lemma tokenise_examples:
  "tokenise ''BTC/USDT'' CHR ''/'' = [''BTC'', ''USDT'']"
  "tokenise ''ETH/USDT'' CHR ''/'' = [''ETH'', ''USDT'']"
  "tokenise ''BTCUSDT'' CHR ''/'' = [''BTCUSDT'']"
  "tokenise [] CHR ''/'' = []"
  by code_simp+

section \<open>The claims about the wallet\<close>

text \<open>
  Claim C9: canFulfillOrder and processSale read the tokens of the product at index 0 and 1
  without looking at their number. With two tokens or more both return a result for every
  order; with fewer than two, canFulfillOrder has no defined result for a bid, and
  processSale none for a sale of either side; with no token at all canFulfillOrder has
  none for an ask either. tokenise never returns an empty token; a product without
  separator gives one token and the empty product gives none.
\<close>

theorem C9_token_access:
  "(2 \<le> length (tokenise (product order) CHR ''/'') \<longrightarrow>
      (\<exists>r. canFulfillOrder w order = Inr r) \<and> (\<exists>w'. processSale w order = Inr w')) \<and>
   (length (tokenise (product order) CHR ''/'') < 2 \<longrightarrow>
      (orderType order = bid \<longrightarrow> canFulfillOrder w order = Inl Undefined) \<and>
      (orderType order = asksale \<or> orderType order = bidsale \<longrightarrow>
         processSale w order = Inl Undefined)) \<and>
   (tokenise (product order) CHR ''/'' = [] \<and> orderType order = ask \<longrightarrow>
      canFulfillOrder w order = Inl Undefined) \<and>
   [] \<notin> set (tokenise (product order) CHR ''/'') \<and>
   tokenise ''BTCUSDT'' CHR ''/'' = [''BTCUSDT''] \<and>
   tokenise [] CHR ''/'' = []"
  by (auto simp: canFulfillOrder_def processSale_def Let_def tokenise_nonempty tokenise_examples)

theorem C9_token_access_witness:
  "2 \<le> length (tokenise ''ETH/USDT'' CHR ''/'') \<and>
   canFulfillOrder [''USDT'' \<mapsto> 100000] (entry 200 0.5 ''t'' ''ETH/USDT'' bid ''simuser'') = Inr True \<and>
   processSale [''USDT'' \<mapsto> 100000] (entry 200 0.5 ''t'' ''ETH/USDT'' bidsale ''simuser'') =
     Inr [''USDT'' \<mapsto> 99900, ''ETH'' \<mapsto> 0.5] \<and>
   length (tokenise ''BTCUSDT'' CHR ''/'') < 2 \<and>
   canFulfillOrder [''USDT'' \<mapsto> 100000] (entry 200 0.5 ''t'' ''BTCUSDT'' bid ''simuser'') =
     Inl Undefined \<and>
   processSale [''USDT'' \<mapsto> 100000] (entry 200 0.5 ''t'' ''BTCUSDT'' asksale ''simuser'') =
     Inl Undefined \<and>
   canFulfillOrder [''USDT'' \<mapsto> 100000] (entry 200 0.5 ''t'' [] ask ''simuser'') = Inl Undefined"
proof -
  have upd: "[''USDT'' \<mapsto> 100000, ''ETH'' \<mapsto> 1 / 2, ''USDT'' \<mapsto> 99900] =
      [''USDT'' \<mapsto> 99900::real, ''ETH'' \<mapsto> 1 / 2]"
    by (rule ext) simp
  from
    C9_token_access [of "entry 200 0.5 ''t'' ''ETH/USDT'' bid ''simuser''" "[''USDT'' \<mapsto> 100000]"]
    C9_token_access [of "entry 200 0.5 ''t'' ''BTCUSDT'' bid ''simuser''" "[''USDT'' \<mapsto> 100000]"]
    C9_token_access [of "entry 200 0.5 ''t'' ''BTCUSDT'' asksale ''simuser''" "[''USDT'' \<mapsto> 100000]"]
    C9_token_access [of "entry 200 0.5 ''t'' [] ask ''simuser''" "[''USDT'' \<mapsto> 100000]"]
  show ?thesis
    by (simp add: tokenise_examples canFulfillOrder_def processSale_def containsCurrency_def
        at_default_def upd)
qed

subsection \<open>Balances\<close>

lemma nonneg_empty: "nonneg Map.empty"
  by (simp add: nonneg_def)

lemma nonneg_upd: "nonneg w \<Longrightarrow> 0 \<le> b \<Longrightarrow> nonneg (w(c \<mapsto> b))"
  by (simp add: nonneg_def)

lemma at_default_nonneg: "nonneg w \<Longrightarrow> 0 \<le> at_default w c"
  by (cases "w c") (auto simp: nonneg_def at_default_def)

lemma at_default_upd: "at_default (w(c \<mapsto> b)) d = (if d = c then b else at_default w d)"
  by (simp add: at_default_def)

lemma insertCurrency_nonneg:
  "nonneg w \<Longrightarrow> insertCurrency w c a = Inr w' \<Longrightarrow> nonneg w'"
  using at_default_nonneg [of w c]
  by (auto simp: insertCurrency_def Let_def nonneg_upd split: if_splits)

lemma removeCurrency_nonneg:
  "nonneg w \<Longrightarrow> nonneg (snd (removeCurrency w c a))"
  by (auto simp: removeCurrency_def containsCurrency_def nonneg_upd)

lemma processSale_funded:
  assumes "nonneg w" and "funded w s"
  shows "\<exists>w'. processSale w s = Inr w' \<and> nonneg w'"
proof -
  let ?c = "tokenise (product s) CHR ''/''"
  consider (sell) "orderType s = asksale" | (buy) "orderType s = bidsale"
    | (other) "orderType s \<noteq> asksale" "orderType s \<noteq> bidsale" by blast
  then show ?thesis
  proof cases
    case sell
    with assms(2) have f: "1 < length ?c" "amount s \<le> at_default w (?c ! 0)"
      "0 \<le> amount s * price s" by (simp_all add: funded_def Let_def)
    let ?w1 = "w(?c ! 0 \<mapsto> at_default w (?c ! 0) - amount s)"
    have n1: "nonneg ?w1"
      using f(2) by (simp add: nonneg_upd [OF assms(1)])
    have "nonneg (?w1(?c ! 1 \<mapsto> at_default ?w1 (?c ! 1) + amount s * price s))"
      using at_default_nonneg [OF n1, of "?c ! 1"] f(3) by (simp add: nonneg_upd [OF n1])
    with sell f(1) show ?thesis by (simp add: processSale_def Let_def)
  next
    case buy
    with assms(2) have f: "1 < length ?c" "0 \<le> amount s"
      "amount s * price s \<le> at_default w (?c ! 1)" by (simp_all add: funded_def Let_def)
    let ?w1 = "w(?c ! 0 \<mapsto> at_default w (?c ! 0) + amount s)"
    have n1: "nonneg ?w1"
      using f(2) at_default_nonneg [OF assms(1), of "?c ! 0"] by (simp add: nonneg_upd [OF assms(1)])
    have "amount s * price s \<le> at_default ?w1 (?c ! 1)"
      using f(2,3) by (auto simp: at_default_upd)
    then have "nonneg (?w1(?c ! 1 \<mapsto> at_default ?w1 (?c ! 1) - amount s * price s))"
      by (simp add: nonneg_upd [OF n1])
    with buy f(1) show ?thesis by (simp add: processSale_def Let_def)
  next
    case other
    with assms(1) show ?thesis by (simp add: processSale_def)
  qed
qed

lemma run_ops_funded:
  "nonneg w \<Longrightarrow> all_funded w xs \<Longrightarrow> \<exists>w'. run_ops w xs = Some w' \<and> nonneg w'"
proof (induction xs arbitrary: w)
  case Nil
  then show ?case by simp
next
  case (Cons x xs)
  show ?case
  proof (cases x)
    case (Deposit c a)
    obtain w1 where a1: "apply_op w x = Some w1" and n1: "nonneg w1"
      using Cons.prems(1) Deposit insertCurrency_nonneg [of w c a]
      by (cases "insertCurrency w c a") auto
    with Cons.prems(2) Deposit have "all_funded w1 xs" by simp
    from Cons.IH [OF n1 this] a1 show ?thesis by simp
  next
    case (Withdraw c a)
    have a1: "apply_op w x = Some (snd (removeCurrency w c a))" using Withdraw by simp
    have n1: "nonneg (snd (removeCurrency w c a))"
      by (rule removeCurrency_nonneg [OF Cons.prems(1)])
    from Cons.prems(2) Withdraw have "all_funded (snd (removeCurrency w c a)) xs" by simp
    from Cons.IH [OF n1 this] a1 show ?thesis by simp
  next
    case (Settle s)
    with Cons.prems(2) have f: "funded w s" by simp
    from processSale_funded [OF Cons.prems(1) f] obtain w1
      where p: "processSale w s = Inr w1" and n1: "nonneg w1" by blast
    then have a1: "apply_op w x = Some w1" using Settle by simp
    with Cons.prems(2) Settle have "all_funded w1 xs" by simp
    from Cons.IH [OF n1 this] a1 show ?thesis by simp
  qed
qed

lemma all_funded_take: "all_funded w xs \<Longrightarrow> all_funded w (take n xs)"
proof (induction xs arbitrary: w n)
  case Nil
  then show ?case by simp
next
  case (Cons x xs)
  show ?case
  proof (cases n)
    case 0
    then show ?thesis by simp
  next
    case (Suc m)
    with Cons show ?thesis
      by (cases x) (auto split: option.splits)
  qed
qed

text \<open>
  Claim C1 as written fails for settlements: processSale subtracts without looking at the
  balance. A wallet seeded with 10 BTC that settles two sales of 10 BTC, each of which
  passed canFulfillOrder against the same 10 BTC when its ask was entered, ends with
  -10 BTC.
\<close>

theorem C1_settle_counterexample:
  "balance_after Map.empty
     [Deposit ''BTC'' 10, Deposit ''USDT'' 100000,
      Settle (entry 1 10 ''2020/03/17 17:01:30'' ''BTC/USDT'' asksale ''simuser''),
      Settle (entry 1 10 ''2020/03/17 17:01:30'' ''BTC/USDT'' asksale ''simuser'')]
     ''BTC'' = Some (- 10)"
  by (simp add: balance_after_def insertCurrency_def processSale_def tokenise_examples
      at_default_def)

text \<open>
  Claim C1, amended: starting from a wallet without negative balance, after every prefix
  of a sequence of deposits, withdrawals and settlements in which each settlement is
  funded (the product has two currencies, the debited currency holds the debited
  quantity, the credited quantity is not negative), the wallet is defined and no balance
  is negative; a deposit of a negative amount throws; a withdrawal of more than the
  balance, or from an unknown currency, returns false and leaves the wallet as it was.
\<close>

theorem C1_wallet_invariant:
  "(nonneg w \<and> all_funded w xs \<longrightarrow>
      (\<forall>n. \<exists>w'. run_ops w (take n xs) = Some w' \<and> nonneg w')) \<and>
   (a < 0 \<longrightarrow> insertCurrency w c a = Inl Thrown) \<and>
   (w c = Some b \<and> b < a \<longrightarrow> removeCurrency w c a = (False, w)) \<and>
   (w c = None \<longrightarrow> removeCurrency w c a = (False, w))"
proof -
  have "\<exists>w'. run_ops w (take n xs) = Some w' \<and> nonneg w'"
    if "nonneg w" and "all_funded w xs" for n
    using that by (intro run_ops_funded all_funded_take)
  moreover have "a < 0 \<longrightarrow> insertCurrency w c a = Inl Thrown"
    by (simp add: insertCurrency_def)
  moreover have "w c = Some b \<and> b < a \<longrightarrow> removeCurrency w c a = (False, w)"
    by (simp add: removeCurrency_def containsCurrency_def at_default_def)
  moreover have "w c = None \<longrightarrow> removeCurrency w c a = (False, w)"
    by (simp add: removeCurrency_def)
  ultimately show ?thesis by blast
qed

theorem C1_wallet_invariant_witness:
  "all_funded Map.empty
     [Deposit ''BTC'' 10, Deposit ''USDT'' 100000, Withdraw ''BTC'' 3,
      Settle (entry 2 5 ''t'' ''BTC/USDT'' asksale ''simuser''),
      Withdraw ''BTC'' 100, Deposit ''BTC'' (- 1)] \<and>
   run_ops Map.empty
     [Deposit ''BTC'' 10, Deposit ''USDT'' 100000, Withdraw ''BTC'' 3,
      Settle (entry 2 5 ''t'' ''BTC/USDT'' asksale ''simuser''),
      Withdraw ''BTC'' 100, Deposit ''BTC'' (- 1)] \<noteq> None \<and>
   balance_after Map.empty
     [Deposit ''BTC'' 10, Deposit ''USDT'' 100000, Withdraw ''BTC'' 3,
      Settle (entry 2 5 ''t'' ''BTC/USDT'' asksale ''simuser''),
      Withdraw ''BTC'' 100, Deposit ''BTC'' (- 1)] ''BTC'' = Some 2 \<and>
   balance_after Map.empty
     [Deposit ''BTC'' 10, Deposit ''USDT'' 100000, Withdraw ''BTC'' 3,
      Settle (entry 2 5 ''t'' ''BTC/USDT'' asksale ''simuser''),
      Withdraw ''BTC'' 100, Deposit ''BTC'' (- 1)] ''USDT'' = Some 100010 \<and>
   insertCurrency [''BTC'' \<mapsto> 2] ''BTC'' (- 1) = Inl Thrown \<and>
   removeCurrency [''BTC'' \<mapsto> 2] ''BTC'' 100 = (False, [''BTC'' \<mapsto> 2]) \<and>
   removeCurrency Map.empty ''BTC'' 5 = (False, Map.empty)"
proof -
  let ?ops = "[Deposit ''BTC'' 10, Deposit ''USDT'' 100000, Withdraw ''BTC'' 3,
      Settle (entry 2 5 ''t'' ''BTC/USDT'' asksale ''simuser''),
      Withdraw ''BTC'' 100, Deposit ''BTC'' (- 1)]"
  have f: "all_funded Map.empty ?ops"
    by (simp add: insertCurrency_def removeCurrency_def containsCurrency_def processSale_def
        funded_def tokenise_examples at_default_def)
  have "\<exists>w'. run_ops Map.empty (take (length ?ops) ?ops) = Some w' \<and> nonneg w'"
    using C1_wallet_invariant [of Map.empty ?ops] nonneg_empty f by blast
  then have run: "run_ops Map.empty ?ops \<noteq> None"
    by (simp only: take_all [OF order_refl]) auto
  have bal: "balance_after Map.empty ?ops ''BTC'' = Some 2"
    "balance_after Map.empty ?ops ''USDT'' = Some 100010"
    by (simp_all add: balance_after_def insertCurrency_def removeCurrency_def
        containsCurrency_def processSale_def tokenise_examples at_default_def)
  from f run bal
    C1_wallet_invariant [of "[''BTC'' \<mapsto> 2]" "[]" "- 1" "''BTC''" 2 ]
    C1_wallet_invariant [of "[''BTC'' \<mapsto> 2]" "[]" "100" "''BTC''" 2]
    C1_wallet_invariant [of Map.empty "[]" "5" "''BTC''"]
  show ?thesis by simp
qed

end
